theory Spec2Isabelle
  imports Main "HOL-Library.Word"
begin

section \<open>The TicketEngine contract\<close>

text \<open>
  A shallow embedding of \<^verbatim>\<open>packages/hardhat/contracts/TicketEngine.sol\<close>.

  \<^item> \<^verbatim>\<open>uint256\<close> is a 256-bit word and \<^verbatim>\<open>address\<close> a 160-bit word. The contract is
    compiled with Solidity 0.8, whose \<^verbatim>\<open>++\<close> and \<^verbatim>\<open>--\<close> revert with a panic where
    the word would wrap; every such check is a branch of the model.
  \<^item> A Solidity \<^verbatim>\<open>mapping\<close> is a total function: a key never written reads as the zero
    value of its type.
  \<^item> A storage array is a list; \<^verbatim>\<open>push\<close> appends at the end.
  \<^item> \<^verbatim>\<open>msg.sender\<close> and \<^verbatim>\<open>block.timestamp\<close> are arguments of every operation.
  \<^item> A \<^verbatim>\<open>require\<close> that fails, a panic and a revert inside \<^verbatim>\<open>_mint\<close> are values
    \<open>Inl e\<close>; a transaction that reverts leaves the storage as it was.
  \<^item> The \<^verbatim>\<open>emit\<close> statements write to the transaction log only and are left out.
    The \<^verbatim>\<open>nonReentrant\<close> modifier is left out as well: no operation of the contract
    calls out of it, so its guard is never found set.
\<close>

type_synonym uint256 = "256 word"
type_synonym address = "160 word"

subsection \<open>Enums and structs\<close>

datatype AttemptResult = Success | AlreadyOwnsTicket | SoldOut | NotStarted

record Event =
  ev_id :: uint256
  ev_title :: string
  ev_startTime :: uint256
  ev_totalTickets :: uint256
  ev_remainingTickets :: uint256
  ev_organizer :: address
  ev_exists :: bool

record Ticket =
  tk_id :: uint256
  tk_eventId :: uint256
  tk_owner :: address
  tk_acquiredAt :: uint256

record Attempt =
  at_eventId :: uint256
  at_participant :: address
  at_timestamp :: uint256
  at_result :: AttemptResult

text \<open>The ways a call can revert: the \<^verbatim>\<open>require\<close> messages of \<^verbatim>\<open>createEvent\<close> and
  \<^verbatim>\<open>grabTicket\<close>, the panics of checked arithmetic and of array indexing, and the two
  errors with which the inherited \<^verbatim>\<open>_mint\<close> rejects a receiver or a token id.\<close>

datatype error =
    Title_cannot_be_empty
  | Must_have_at_least_1_ticket
  | Start_time_must_be_in_future
  | Event_does_not_exist
  | Panic_arithmetic
  | Panic_array_index
  | ERC721InvalidReceiver
  | ERC721InvalidSender

text \<open>The spec's names for the two groups of \<^verbatim>\<open>require\<close> failures.\<close>

definition InvalidArgument :: "error \<Rightarrow> bool" where
  "InvalidArgument e =
     (e = Title_cannot_be_empty \<or> e = Must_have_at_least_1_ticket \<or> e = Start_time_must_be_in_future)"

definition NotFound :: "error \<Rightarrow> bool" where
  "NotFound e = (e = Event_does_not_exist)"

subsection \<open>Storage\<close>

text \<open>
  The state variables of the contract, in the order of their declaration. The last field
  is the storage of the inherited ERC721 contract: its variables are private to the
  library contract, which is not among the repository's sources, so its type is left open.
\<close>

record 'n state =
  nextEventId :: uint256
  nextTicketId :: uint256
  events :: "uint256 \<Rightarrow> Event"
  tickets :: "uint256 \<Rightarrow> Ticket"
  hasTicketForEvent :: "uint256 \<Rightarrow> address \<Rightarrow> bool"
  userTicketForEvent :: "uint256 \<Rightarrow> address \<Rightarrow> uint256"
  eventTickets :: "uint256 \<Rightarrow> uint256 list"
  userEvents :: "address \<Rightarrow> uint256 list"
  userAttempts :: "address \<Rightarrow> Attempt list"
  allEventIds :: "uint256 list"
  erc721 :: 'n

definition zero_Event :: Event where
  "zero_Event = \<lparr>ev_id = 0, ev_title = [], ev_startTime = 0, ev_totalTickets = 0,
     ev_remainingTickets = 0, ev_organizer = 0, ev_exists = False\<rparr>"

definition zero_Ticket :: Ticket where
  "zero_Ticket = \<lparr>tk_id = 0, tk_eventId = 0, tk_owner = 0, tk_acquiredAt = 0\<rparr>"

text \<open>The storage after deployment: both counters are initialised to 1, every mapping
  and array is empty.\<close>

definition deployed :: "'n \<Rightarrow> 'n state" where
  "deployed n0 = \<lparr>nextEventId = 1, nextTicketId = 1,
     events = (\<lambda>_. zero_Event), tickets = (\<lambda>_. zero_Ticket),
     hasTicketForEvent = (\<lambda>_ _. False), userTicketForEvent = (\<lambda>_ _. 0),
     eventTickets = (\<lambda>_. []), userEvents = (\<lambda>_. []), userAttempts = (\<lambda>_. []),
     allEventIds = [], erc721 = n0\<rparr>"

subsection \<open>Checked arithmetic\<close>

text \<open>\<^verbatim>\<open>x++\<close> on a \<^verbatim>\<open>uint256\<close>: panics at the largest value instead of wrapping.\<close>

definition checked_inc :: "uint256 \<Rightarrow> error + uint256" where
  "checked_inc x = (if x = - 1 then Inl Panic_arithmetic else Inr (x + 1))"

text \<open>\<^verbatim>\<open>x--\<close> on a \<^verbatim>\<open>uint256\<close>: panics at zero.\<close>

definition checked_dec :: "uint256 \<Rightarrow> error + uint256" where
  "checked_dec x = (if x = 0 then Inl Panic_arithmetic else Inr (x - 1))"

subsection \<open>createEvent\<close>

definition createEvent ::
  "'n state \<Rightarrow> address \<Rightarrow> uint256 \<Rightarrow> string \<Rightarrow> uint256 \<Rightarrow> uint256 \<Rightarrow> error + (uint256 \<times> 'n state)"
where
  "createEvent s sender now title startTime totalTickets =
     (if \<not> length title > 0 then Inl Title_cannot_be_empty
      else if \<not> totalTickets > 0 then Inl Must_have_at_least_1_ticket
      else if \<not> startTime > now then Inl Start_time_must_be_in_future
      else case checked_inc (nextEventId s) of
        Inl e \<Rightarrow> Inl e
      | Inr next \<Rightarrow>
          let eventId = nextEventId s;
              s1 = s\<lparr>nextEventId := next\<rparr>;
              s2 = s1\<lparr>events := (events s1)(eventId :=
                     \<lparr>ev_id = eventId, ev_title = title, ev_startTime = startTime,
                      ev_totalTickets = totalTickets, ev_remainingTickets = totalTickets,
                      ev_organizer = sender, ev_exists = True\<rparr>)\<rparr>;
              s3 = s2\<lparr>allEventIds := allEventIds s2 @ [eventId]\<rparr>
          in Inr (eventId, s3))"

subsection \<open>grabTicket\<close>

definition recordAttempt ::
  "'n state \<Rightarrow> address \<Rightarrow> uint256 \<Rightarrow> uint256 \<Rightarrow> AttemptResult \<Rightarrow> 'n state"
where
  "recordAttempt s sender now eventId res =
     (let attempt = \<lparr>at_eventId = eventId, at_participant = sender,
                      at_timestamp = now, at_result = res\<rparr>
      in s\<lparr>userAttempts := (userAttempts s)(sender := userAttempts s sender @ [attempt])\<rparr>)"

text \<open>
  \<^verbatim>\<open>_mint\<close> is inherited from the ERC721 library contract. It is an argument \<open>mint\<close> of
  the model: a function on the library's own storage that either reverts or returns the
  storage with the token minted. It cannot reach the state variables of TicketEngine.
\<close>

type_synonym 'n mint = "'n \<Rightarrow> address \<Rightarrow> uint256 \<Rightarrow> error + 'n"

definition grabTicket ::
  "'n mint \<Rightarrow> 'n state \<Rightarrow> address \<Rightarrow> uint256 \<Rightarrow> uint256 \<Rightarrow>
     error + ((bool \<times> AttemptResult \<times> uint256) \<times> 'n state)"
where
  "grabTicket mint s sender now eventId =
     (let evt = events s eventId in
      if \<not> ev_exists evt then Inl Event_does_not_exist
      else if now < ev_startTime evt then
        Inr ((False, NotStarted, 0), recordAttempt s sender now eventId NotStarted)
      else if hasTicketForEvent s eventId sender then
        Inr ((False, AlreadyOwnsTicket, 0), recordAttempt s sender now eventId AlreadyOwnsTicket)
      else if ev_remainingTickets evt = 0 then
        Inr ((False, SoldOut, 0), recordAttempt s sender now eventId SoldOut)
      else case checked_inc (nextTicketId s) of
        Inl e \<Rightarrow> Inl e
      | Inr next \<Rightarrow>
         (case checked_dec (ev_remainingTickets evt) of
            Inl e \<Rightarrow> Inl e
          | Inr remaining \<Rightarrow>
              let ticketId = nextTicketId s;
                  s1 = s\<lparr>nextTicketId := next\<rparr>;
                  s2 = s1\<lparr>events := (events s1)(eventId := evt\<lparr>ev_remainingTickets := remaining\<rparr>)\<rparr>;
                  s3 = s2\<lparr>tickets := (tickets s2)(ticketId :=
                         \<lparr>tk_id = ticketId, tk_eventId = eventId, tk_owner = sender,
                          tk_acquiredAt = now\<rparr>)\<rparr>;
                  s4 = s3\<lparr>hasTicketForEvent :=
                         (hasTicketForEvent s3)(eventId := (hasTicketForEvent s3 eventId)(sender := True))\<rparr>;
                  s5 = s4\<lparr>userTicketForEvent :=
                         (userTicketForEvent s4)(eventId := (userTicketForEvent s4 eventId)(sender := ticketId))\<rparr>;
                  s6 = s5\<lparr>eventTickets := (eventTickets s5)(eventId := eventTickets s5 eventId @ [ticketId])\<rparr>;
                  s7 = s6\<lparr>userEvents := (userEvents s6)(sender := userEvents s6 sender @ [eventId])\<rparr>
              in (case mint (erc721 s7) sender ticketId of
                    Inl e \<Rightarrow> Inl e
                  | Inr n \<Rightarrow>
                      Inr ((True, Success, ticketId),
                           recordAttempt (s7\<lparr>erc721 := n\<rparr>) sender now eventId Success))))"

subsection \<open>getRecentTickets\<close>

text \<open>
  The three result arrays are allocated with \<open>returnLen\<close> zero entries and filled by the
  loop, which reads the event's ticket array from its end. Array lengths and indices are
  natural numbers (a storage array never holds \<open>2 ^ 256\<close> entries); the subtractions and
  the index reads are checked, as in the compiled code.
\<close>

function getRecentTickets_loop ::
  "(uint256 \<Rightarrow> Ticket) \<Rightarrow> uint256 list \<Rightarrow> nat \<Rightarrow> nat \<Rightarrow> nat \<Rightarrow>
     (uint256 list \<times> address list \<times> uint256 list) \<Rightarrow>
     error + (uint256 list \<times> address list \<times> uint256 list)"
where
  "getRecentTickets_loop tks evtTickets len returnLen i (ticketIds, owners, acquiredTimes) =
     (if i < returnLen then
        (if len < 1 \<or> len - 1 < i then Inl Panic_arithmetic
         else if \<not> len - 1 - i < length evtTickets then Inl Panic_array_index
         else if \<not> i < length ticketIds \<or> \<not> i < length owners \<or> \<not> i < length acquiredTimes
           then Inl Panic_array_index
         else
           let tId = evtTickets ! (len - 1 - i) in
           getRecentTickets_loop tks evtTickets len returnLen (i + 1)
             (ticketIds[i := tId], owners[i := tk_owner (tks tId)],
              acquiredTimes[i := tk_acquiredAt (tks tId)]))
      else Inr (ticketIds, owners, acquiredTimes))"
  by pat_completeness auto
termination
  by (relation "measure (\<lambda>(tks, evtTickets, len, returnLen, i, r). returnLen - i)") auto

declare getRecentTickets_loop.simps [simp del]

definition getRecentTickets ::
  "'n state \<Rightarrow> uint256 \<Rightarrow> uint256 \<Rightarrow> error + (uint256 list \<times> address list \<times> uint256 list)"
where
  "getRecentTickets s eventId limit =
     (let evtTickets = eventTickets s eventId;
          len = length evtTickets;
          returnLen = (if len < unat limit then len else unat limit)
      in getRecentTickets_loop (tickets s) evtTickets len returnLen 0
           (replicate returnLen 0, replicate returnLen 0, replicate returnLen 0))"

subsection \<open>Transactions\<close>

text \<open>
  A transaction is one external call of \<^verbatim>\<open>createEvent\<close> or \<^verbatim>\<open>grabTicket\<close>, with its
  sender and the timestamp of its block. A call that reverts changes nothing.
\<close>

datatype call =
    CreateEvent address uint256 string uint256 uint256
  | GrabTicket address uint256 uint256

datatype outcome =
    Reverted error
  | Created uint256
  | Grabbed bool AttemptResult uint256

fun step :: "'n mint \<Rightarrow> 'n state \<Rightarrow> call \<Rightarrow> outcome \<times> 'n state" where
  "step mint s (CreateEvent sender now title startTime totalTickets) =
     (case createEvent s sender now title startTime totalTickets of
        Inl e \<Rightarrow> (Reverted e, s)
      | Inr (eventId, s') \<Rightarrow> (Created eventId, s'))"
| "step mint s (GrabTicket sender now eventId) =
     (case grabTicket mint s sender now eventId of
        Inl e \<Rightarrow> (Reverted e, s)
      | Inr ((ok, res, ticketId), s') \<Rightarrow> (Grabbed ok res ticketId, s'))"

text \<open>The storage after a sequence of transactions, and what each of them returned.\<close>

fun run :: "'n mint \<Rightarrow> 'n state \<Rightarrow> call list \<Rightarrow> 'n state" where
  "run mint s [] = s"
| "run mint s (c # cs) = run mint (snd (step mint s c)) cs"

fun trace :: "'n mint \<Rightarrow> 'n state \<Rightarrow> call list \<Rightarrow> (call \<times> outcome) list" where
  "trace mint s [] = []"
| "trace mint s (c # cs) = (c, fst (step mint s c)) # trace mint (snd (step mint s c)) cs"

text \<open>The tickets handed out along a trace, oldest first: one for every call of
  \<^verbatim>\<open>grabTicket\<close> that returned \<^verbatim>\<open>success = true\<close>.\<close>

fun issued :: "call \<times> outcome \<Rightarrow> Ticket list" where
  "issued (GrabTicket sender now eventId, Grabbed True res ticketId) =
     [\<lparr>tk_id = ticketId, tk_eventId = eventId, tk_owner = sender, tk_acquiredAt = now\<rparr>]"
| "issued _ = []"

definition issued_tickets :: "(call \<times> outcome) list \<Rightarrow> Ticket list" where
  "issued_tickets tr = concat (map issued tr)"

definition issued_for :: "uint256 \<Rightarrow> (call \<times> outcome) list \<Rightarrow> Ticket list" where
  "issued_for eventId tr = filter (\<lambda>tk. tk_eventId tk = eventId) (issued_tickets tr)"

subsection \<open>An instance of the ERC721 storage\<close>

text \<open>
  For running the model on concrete transactions: the owner and balance mappings of an
  ERC721 token, and a \<open>mint\<close> that behaves as the library documents \<^verbatim>\<open>_mint\<close>: it
  rejects the zero address and a token id that has an owner already, and otherwise
  records the owner and counts the token. The theorems below hold for every \<open>mint\<close>;
  this one is used in the examples only.
\<close>

record ERC721_storage =
  owners :: "uint256 \<Rightarrow> address"
  balances :: "address \<Rightarrow> uint256"

definition ERC721_mint :: "ERC721_storage mint" where
  "ERC721_mint n to tokenId =
     (if to = 0 then Inl ERC721InvalidReceiver
      else if owners n tokenId \<noteq> 0 then Inl ERC721InvalidSender
      else Inr (n\<lparr>balances := (balances n)(to := balances n to + 1),
                  owners := (owners n)(tokenId := to)\<rparr>))"

definition ERC721_deployed :: ERC721_storage where
  "ERC721_deployed = \<lparr>owners = (\<lambda>_. 0), balances = (\<lambda>_. 0)\<rparr>"

text \<open>
  The example scenarios of the spec, as transactions: an event with two tickets that opens
  at time 1100 is created at time 1000 by account 9; account 10 claims too early, claims
  again once the event is open, and claims a third time; account 11 takes the last
  ticket; account 12 finds the event sold out.
\<close>

definition example_calls :: "call list" where
  "example_calls =
     [CreateEvent 9 1000 ''X'' 1100 2,
      GrabTicket 10 1050 1,
      GrabTicket 10 1150 1,
      GrabTicket 10 1151 1,
      GrabTicket 11 1152 1,
      GrabTicket 12 1153 1]"

definition example_state :: "nat \<Rightarrow> ERC721_storage state" where
  "example_state k = run ERC721_mint (deployed ERC721_deployed) (take k example_calls)"

subsection \<open>Invariants of the storage\<close>

text \<open>
  Facts that hold after deployment and that every transaction keeps: the counters are
  never zero; an event that exists has an id below \<open>nextEventId\<close>, and an id without an
  event has no tickets; remaining capacity plus tickets handed out is the total capacity;
  a stored ticket sits under its own id, below \<open>nextTicketId\<close>, and the two ownership
  mappings point to it.
\<close>

definition inv_counters :: "'n state \<Rightarrow> bool" where
  "inv_counters s = (nextEventId s \<noteq> 0 \<and> nextTicketId s \<noteq> 0)"

definition inv_events :: "'n state \<Rightarrow> bool" where
  "inv_events s = (\<forall>e. (ev_exists (events s e) \<longrightarrow> e < nextEventId s) \<and>
                       (\<not> ev_exists (events s e) \<longrightarrow> eventTickets s e = []))"

definition inv_capacity :: "'n state \<Rightarrow> bool" where
  "inv_capacity s = (\<forall>e. unat (ev_remainingTickets (events s e)) + length (eventTickets s e)
                          = unat (ev_totalTickets (events s e)))"

definition inv_tickets :: "'n state \<Rightarrow> bool" where
  "inv_tickets s = (\<forall>t. tk_id (tickets s t) \<noteq> 0 \<longrightarrow>
       tk_id (tickets s t) = t \<and> t < nextTicketId s \<and>
       hasTicketForEvent s (tk_eventId (tickets s t)) (tk_owner (tickets s t)) \<and>
       userTicketForEvent s (tk_eventId (tickets s t)) (tk_owner (tickets s t)) = t)"

definition engine_inv :: "'n state \<Rightarrow> bool" where
  "engine_inv s = (inv_counters s \<and> inv_events s \<and> inv_capacity s \<and> inv_tickets s)"

section \<open>Basic facts\<close>

subsection \<open>Checked arithmetic on words\<close>

lemma inc_less: "(x::uint256) \<noteq> - 1 \<Longrightarrow> x < x + 1"
  by (metis inc_less_eq_triv_imp linorder_less_linear word_le_less_eq)

lemma unat_inc: "(x::uint256) \<noteq> - 1 \<Longrightarrow> unat (x + 1) = Suc (unat x)"
  by (simp add: add.commute add_eq_0_iff unatSuc)

lemma inc_nonzero: "(x::uint256) \<noteq> - 1 \<Longrightarrow> x + 1 \<noteq> 0"
  using max_word_wrap by blast

lemma unat_dec: "(x::uint256) \<noteq> 0 \<Longrightarrow> unat (x - 1) = unat x - 1"
  by (rule unat_minus_one)

subsection \<open>What a call that returns has done\<close>

lemma createEvent_Inr:
  assumes "createEvent s sender now title startTime totalTickets = Inr (eventId, s')"
  shows "eventId = nextEventId s \<and> nextEventId s \<noteq> - 1 \<and> title \<noteq> [] \<and> 0 < totalTickets \<and>
         now < startTime \<and>
         s' = s\<lparr>nextEventId := nextEventId s + 1,
                events := (events s)(nextEventId s :=
                   \<lparr>ev_id = nextEventId s, ev_title = title, ev_startTime = startTime,
                    ev_totalTickets = totalTickets, ev_remainingTickets = totalTickets,
                    ev_organizer = sender, ev_exists = True\<rparr>),
                allEventIds := allEventIds s @ [nextEventId s]\<rparr>"
  using assms
  by (auto simp: createEvent_def checked_inc_def Let_def split: if_splits)

lemma grabTicket_failure:
  assumes "grabTicket mint s sender now eventId = Inr ((False, res, ticketId), s')"
  shows "ticketId = 0 \<and> res \<noteq> Success \<and> s' = recordAttempt s sender now eventId res"
  using assms
  by (auto simp: grabTicket_def checked_inc_def checked_dec_def Let_def split: if_splits sum.splits)

lemma grabTicket_success:
  assumes "grabTicket mint s sender now eventId = Inr ((True, res, ticketId), s')"
  shows "res = Success \<and> ticketId = nextTicketId s \<and> nextTicketId s \<noteq> - 1 \<and>
         ev_exists (events s eventId) \<and> \<not> now < ev_startTime (events s eventId) \<and>
         \<not> hasTicketForEvent s eventId sender \<and> ev_remainingTickets (events s eventId) \<noteq> 0 \<and>
         (\<exists>n. mint (erc721 s) sender (nextTicketId s) = Inr n \<and>
           s' = s\<lparr>nextTicketId := nextTicketId s + 1,
                  events := (events s)(eventId := (events s eventId)
                     \<lparr>ev_remainingTickets := ev_remainingTickets (events s eventId) - 1\<rparr>),
                  tickets := (tickets s)(nextTicketId s :=
                     \<lparr>tk_id = nextTicketId s, tk_eventId = eventId, tk_owner = sender,
                      tk_acquiredAt = now\<rparr>),
                  hasTicketForEvent := (hasTicketForEvent s)
                     (eventId := (hasTicketForEvent s eventId)(sender := True)),
                  userTicketForEvent := (userTicketForEvent s)
                     (eventId := (userTicketForEvent s eventId)(sender := nextTicketId s)),
                  eventTickets := (eventTickets s)(eventId := eventTickets s eventId @ [nextTicketId s]),
                  userEvents := (userEvents s)(sender := userEvents s sender @ [eventId]),
                  userAttempts := (userAttempts s)(sender := userAttempts s sender @
                     [\<lparr>at_eventId = eventId, at_participant = sender, at_timestamp = now,
                       at_result = Success\<rparr>]),
                  erc721 := n\<rparr>)"
  using assms
  by (auto simp: grabTicket_def checked_inc_def checked_dec_def recordAttempt_def Let_def
           split: if_splits sum.splits)

lemma grabTicket_missing_event:
  assumes "\<not> ev_exists (events s eventId)"
  shows "grabTicket mint s sender now eventId = Inl Event_does_not_exist"
    and "step mint s (GrabTicket sender now eventId) = (Reverted Event_does_not_exist, s)"
  using assms by (simp_all add: grabTicket_def)

subsection \<open>The invariants hold in every reachable state\<close>

lemma engine_inv_deployed: "engine_inv (deployed n0)"
  by (simp add: engine_inv_def inv_counters_def inv_events_def inv_capacity_def inv_tickets_def
      deployed_def zero_Event_def zero_Ticket_def)

lemma recordAttempt_fields [simp]:
  "nextEventId (recordAttempt s a now e r) = nextEventId s"
  "nextTicketId (recordAttempt s a now e r) = nextTicketId s"
  "events (recordAttempt s a now e r) = events s"
  "tickets (recordAttempt s a now e r) = tickets s"
  "hasTicketForEvent (recordAttempt s a now e r) = hasTicketForEvent s"
  "userTicketForEvent (recordAttempt s a now e r) = userTicketForEvent s"
  "eventTickets (recordAttempt s a now e r) = eventTickets s"
  "userEvents (recordAttempt s a now e r) = userEvents s"
  "allEventIds (recordAttempt s a now e r) = allEventIds s"
  "erc721 (recordAttempt s a now e r) = erc721 s"
  by (simp_all add: recordAttempt_def)

lemma engine_inv_recordAttempt: "engine_inv s \<Longrightarrow> engine_inv (recordAttempt s a now e r)"
  by (simp add: engine_inv_def inv_counters_def inv_events_def inv_capacity_def inv_tickets_def)

lemma engine_inv_createEvent:
  assumes "engine_inv s" and "createEvent s sender now title startTime totalTickets = Inr (eventId, s')"
  shows "engine_inv s'"
proof -
  note c = createEvent_Inr [OF assms(2)]
  from c have fresh: "nextEventId s < nextEventId s + 1" by (simp add: inc_less)
  from c have s': "nextEventId s' = nextEventId s + 1" "nextTicketId s' = nextTicketId s"
    "tickets s' = tickets s" "hasTicketForEvent s' = hasTicketForEvent s"
    "userTicketForEvent s' = userTicketForEvent s" "eventTickets s' = eventTickets s"
    "events s' = (events s)(nextEventId s :=
                   \<lparr>ev_id = nextEventId s, ev_title = title, ev_startTime = startTime,
                    ev_totalTickets = totalTickets, ev_remainingTickets = totalTickets,
                    ev_organizer = sender, ev_exists = True\<rparr>)"
    by simp_all
  from assms(1) have unused: "eventTickets s (nextEventId s) = []"
    by (auto simp: engine_inv_def inv_events_def)
  have 1: "inv_counters s'"
    using assms(1) c by (simp add: engine_inv_def inv_counters_def s' inc_nonzero)
  have 2: "inv_events s'"
    using assms(1) fresh unfolding engine_inv_def inv_events_def s'
    by (auto intro: less_trans)
  have 3: "inv_capacity s'"
    using assms(1) unused unfolding engine_inv_def inv_capacity_def s'
    by auto
  have 4: "inv_tickets s'"
    using assms(1) unfolding engine_inv_def inv_tickets_def s'
    by simp
  show ?thesis using 1 2 3 4 by (simp add: engine_inv_def)
qed

lemma engine_inv_grabTicket:
  assumes "engine_inv s" and "grabTicket mint s sender now eventId = Inr ((ok, res, ticketId), s')"
  shows "engine_inv s'"
proof (cases ok)
  case False
  with assms(2) have "s' = recordAttempt s sender now eventId res"
    by (simp add: grabTicket_failure)
  with assms(1) show ?thesis by (simp add: engine_inv_recordAttempt)
next
  case True
  with assms(2) have g0: "grabTicket mint s sender now eventId = Inr ((True, res, ticketId), s')"
    by simp
  note g = grabTicket_success [OF g0]
  from g have fresh: "nextTicketId s < nextTicketId s + 1" by (simp add: inc_less)
  from g have s': "nextEventId s' = nextEventId s" "nextTicketId s' = nextTicketId s + 1"
    "events s' = (events s)(eventId := (events s eventId)
                     \<lparr>ev_remainingTickets := ev_remainingTickets (events s eventId) - 1\<rparr>)"
    "tickets s' = (tickets s)(nextTicketId s :=
                     \<lparr>tk_id = nextTicketId s, tk_eventId = eventId, tk_owner = sender,
                      tk_acquiredAt = now\<rparr>)"
    "hasTicketForEvent s' = (hasTicketForEvent s)
                     (eventId := (hasTicketForEvent s eventId)(sender := True))"
    "userTicketForEvent s' = (userTicketForEvent s)
                     (eventId := (userTicketForEvent s eventId)(sender := nextTicketId s))"
    "eventTickets s' = (eventTickets s)(eventId := eventTickets s eventId @ [nextTicketId s])"
    by auto
  have 1: "inv_counters s'"
    using assms(1) g by (simp add: engine_inv_def inv_counters_def s' inc_nonzero)
  have 2: "inv_events s'"
    using assms(1) g unfolding engine_inv_def inv_events_def s'
    by auto
  have pos: "unat (ev_remainingTickets (events s eventId)) \<noteq> 0"
    using g by (simp add: unat_eq_0)
  have cap: "unat (ev_remainingTickets (events s e)) + length (eventTickets s e)
               = unat (ev_totalTickets (events s e))" for e
    using assms(1) by (simp add: engine_inv_def inv_capacity_def)
  have dec: "unat (ev_remainingTickets (events s eventId) - 1)
               = unat (ev_remainingTickets (events s eventId)) - 1"
    using g by (simp add: unat_dec)
  have 3: "inv_capacity s'"
    unfolding inv_capacity_def s'
  proof
    fix e
    show "unat (ev_remainingTickets (((events s)(eventId := (events s eventId)
                     \<lparr>ev_remainingTickets := ev_remainingTickets (events s eventId) - 1\<rparr>)) e)) +
          length (((eventTickets s)(eventId := eventTickets s eventId @ [nextTicketId s])) e) =
          unat (ev_totalTickets (((events s)(eventId := (events s eventId)
                     \<lparr>ev_remainingTickets := ev_remainingTickets (events s eventId) - 1\<rparr>)) e))"
      using cap [of e] pos dec by (cases "e = eventId") simp_all
  qed
  have old: "tk_id (tickets s t) \<noteq> 0 \<Longrightarrow> t < nextTicketId s \<and>
       \<not> (tk_eventId (tickets s t) = eventId \<and> tk_owner (tickets s t) = sender)" for t
    using assms(1) g unfolding engine_inv_def inv_tickets_def by auto
  have 4: "inv_tickets s'"
    unfolding inv_tickets_def s'
  proof (intro allI impI)
    fix t
    assume t: "tk_id (((tickets s)(nextTicketId s :=
                     \<lparr>tk_id = nextTicketId s, tk_eventId = eventId, tk_owner = sender,
                      tk_acquiredAt = now\<rparr>)) t) \<noteq> 0"
    show "tk_id (((tickets s)(nextTicketId s :=
                     \<lparr>tk_id = nextTicketId s, tk_eventId = eventId, tk_owner = sender,
                      tk_acquiredAt = now\<rparr>)) t) = t \<and> t < nextTicketId s + 1 \<and>
       ((hasTicketForEvent s)
                     (eventId := (hasTicketForEvent s eventId)(sender := True)))
         (tk_eventId (((tickets s)(nextTicketId s :=
                     \<lparr>tk_id = nextTicketId s, tk_eventId = eventId, tk_owner = sender,
                      tk_acquiredAt = now\<rparr>)) t))
         (tk_owner (((tickets s)(nextTicketId s :=
                     \<lparr>tk_id = nextTicketId s, tk_eventId = eventId, tk_owner = sender,
                      tk_acquiredAt = now\<rparr>)) t)) \<and>
       ((userTicketForEvent s)
                     (eventId := (userTicketForEvent s eventId)(sender := nextTicketId s)))
         (tk_eventId (((tickets s)(nextTicketId s :=
                     \<lparr>tk_id = nextTicketId s, tk_eventId = eventId, tk_owner = sender,
                      tk_acquiredAt = now\<rparr>)) t))
         (tk_owner (((tickets s)(nextTicketId s :=
                     \<lparr>tk_id = nextTicketId s, tk_eventId = eventId, tk_owner = sender,
                      tk_acquiredAt = now\<rparr>)) t)) = t"
    proof (cases "t = nextTicketId s")
      case True
      then show ?thesis using fresh by simp
    next
      case False
      with t have nz: "tk_id (tickets s t) \<noteq> 0" by simp
      from assms(1) nz have i: "tk_id (tickets s t) = t" "t < nextTicketId s"
        "hasTicketForEvent s (tk_eventId (tickets s t)) (tk_owner (tickets s t))"
        "userTicketForEvent s (tk_eventId (tickets s t)) (tk_owner (tickets s t)) = t"
        unfolding engine_inv_def inv_tickets_def by auto
      from old [OF nz] have ne: "\<not> (tk_eventId (tickets s t) = eventId \<and> tk_owner (tickets s t) = sender)"
        by simp
      from i(2) fresh have lt: "t < nextTicketId s + 1" by (rule less_trans)
      show ?thesis using False i lt ne by auto
    qed
  qed
  show ?thesis using 1 2 3 4 by (simp add: engine_inv_def)
qed

lemma engine_inv_step: "engine_inv s \<Longrightarrow> engine_inv (snd (step mint s c))"
proof (cases c)
  case (CreateEvent a now title st tot)
  assume "engine_inv s"
  then show ?thesis using CreateEvent
    by (auto split: sum.splits dest: engine_inv_createEvent)
next
  case (GrabTicket a now e)
  assume "engine_inv s"
  then show ?thesis using GrabTicket
    by (auto split: sum.splits dest: engine_inv_grabTicket)
qed

lemma engine_inv_run: "engine_inv s \<Longrightarrow> engine_inv (run mint s cs)"
  by (induction cs arbitrary: s) (simp_all add: engine_inv_step)

subsection \<open>One transaction, by cases\<close>

lemma issued_simps [simp]:
  "issued (c, Reverted e) = []"
  "issued (c, Created i) = []"
  "issued (c, Grabbed False res t) = []"
  "issued (CreateEvent a now title st tot, out) = []"
  by (cases c; simp)+

lemma createEvent_fields:
  assumes "createEvent s sender now title startTime totalTickets = Inr (eventId, s')"
  shows "nextEventId s' = nextEventId s + 1" "nextTicketId s' = nextTicketId s"
    "events s' = (events s)(nextEventId s :=
                   \<lparr>ev_id = nextEventId s, ev_title = title, ev_startTime = startTime,
                    ev_totalTickets = totalTickets, ev_remainingTickets = totalTickets,
                    ev_organizer = sender, ev_exists = True\<rparr>)"
    "tickets s' = tickets s" "hasTicketForEvent s' = hasTicketForEvent s"
    "userTicketForEvent s' = userTicketForEvent s" "eventTickets s' = eventTickets s"
    "userEvents s' = userEvents s" "userAttempts s' = userAttempts s"
    "allEventIds s' = allEventIds s @ [nextEventId s]" "erc721 s' = erc721 s"
  using createEvent_Inr [OF assms] by simp_all

lemma grabTicket_success_fields:
  assumes "grabTicket mint s sender now eventId = Inr ((True, res, ticketId), s')"
  shows "nextEventId s' = nextEventId s" "nextTicketId s' = nextTicketId s + 1"
    "events s' = (events s)(eventId := (events s eventId)
                     \<lparr>ev_remainingTickets := ev_remainingTickets (events s eventId) - 1\<rparr>)"
    "tickets s' = (tickets s)(nextTicketId s :=
                     \<lparr>tk_id = nextTicketId s, tk_eventId = eventId, tk_owner = sender,
                      tk_acquiredAt = now\<rparr>)"
    "hasTicketForEvent s' = (hasTicketForEvent s)
                     (eventId := (hasTicketForEvent s eventId)(sender := True))"
    "userTicketForEvent s' = (userTicketForEvent s)
                     (eventId := (userTicketForEvent s eventId)(sender := nextTicketId s))"
    "eventTickets s' = (eventTickets s)(eventId := eventTickets s eventId @ [nextTicketId s])"
    "userEvents s' = (userEvents s)(sender := userEvents s sender @ [eventId])"
    "userAttempts s' = (userAttempts s)(sender := userAttempts s sender @
                     [\<lparr>at_eventId = eventId, at_participant = sender, at_timestamp = now,
                       at_result = Success\<rparr>])"
    "allEventIds s' = allEventIds s"
  using grabTicket_success [OF assms] by auto

lemma step_elim [case_names reverted created failed succeeded]:
  obtains
    (reverted) e where "step mint s c = (Reverted e, s)"
  | (created) a now title st tot s' where "c = CreateEvent a now title st tot"
      "createEvent s a now title st tot = Inr (nextEventId s, s')"
      "step mint s c = (Created (nextEventId s), s')"
  | (failed) a now e res where "c = GrabTicket a now e" "res \<noteq> Success"
      "step mint s c = (Grabbed False res 0, recordAttempt s a now e res)"
  | (succeeded) a now e s' where "c = GrabTicket a now e"
      "grabTicket mint s a now e = Inr ((True, Success, nextTicketId s), s')"
      "step mint s c = (Grabbed True Success (nextTicketId s), s')"
proof (cases c)
  case (CreateEvent a now title st tot)
  show ?thesis
  proof (cases "createEvent s a now title st tot")
    case (Inl e)
    with CreateEvent have "step mint s c = (Reverted e, s)" by simp
    then show ?thesis by (rule reverted)
  next
    case (Inr r)
    obtain i s' where r: "r = (i, s')" by (cases r)
    from Inr r have i: "i = nextEventId s" by (simp add: createEvent_Inr)
    from CreateEvent Inr r i show ?thesis by (intro created [of a now title st tot s']) simp_all
  qed
next
  case (GrabTicket a now e)
  show ?thesis
  proof (cases "grabTicket mint s a now e")
    case (Inl err)
    with GrabTicket have "step mint s c = (Reverted err, s)" by simp
    then show ?thesis by (rule reverted)
  next
    case (Inr r)
    obtain ok res t s' where r: "r = ((ok, res, t), s')" by (cases r) auto
    show ?thesis
    proof (cases ok)
      case True
      with Inr r have g: "grabTicket mint s a now e = Inr ((True, res, t), s')" by simp
      from grabTicket_success [OF g] have "res = Success" "t = nextTicketId s" by simp_all
      with GrabTicket g show ?thesis by (intro succeeded [of a now e s']) simp_all
    next
      case False
      with Inr r have g: "grabTicket mint s a now e = Inr ((False, res, t), s')" by simp
      from grabTicket_failure [OF g] GrabTicket g show ?thesis
        by (intro failed [of a now e res]) simp_all
    qed
  qed
qed

subsection \<open>Events exist only once created\<close>

lemma step_created:
  assumes "ev_exists (events (snd (step mint s c)) e)"
  shows "ev_exists (events s e) \<or> fst (step mint s c) = Created e"
proof (cases rule: step_elim [of mint s c])
  case (reverted err)
  with assms show ?thesis by simp
next
  case (created a now title st tot s')
  with assms show ?thesis by (auto simp: createEvent_fields [OF created(2)] split: if_splits)
next
  case (failed a now e' res)
  with assms show ?thesis by simp
next
  case (succeeded a now e' s')
  from grabTicket_success [OF succeeded(2)] have "ev_exists (events s e')" by simp
  with assms succeeded(3) show ?thesis
    by (auto simp: grabTicket_success_fields [OF succeeded(2)] split: if_splits)
qed

lemma run_created:
  "ev_exists (events (run mint s cs) e) \<Longrightarrow>
     ev_exists (events s e) \<or> Created e \<in> snd ` set (trace mint s cs)"
proof (induction cs arbitrary: s)
  case Nil
  then show ?case by simp
next
  case (Cons c cs)
  from Cons.prems have "ev_exists (events (run mint (snd (step mint s c)) cs) e)" by simp
  from Cons.IH [OF this] show ?case
    using step_created [of mint s c e] by auto
qed

subsection \<open>What one transaction does to events, tickets and counters\<close>

lemma step_event_frame:
  assumes "engine_inv s" and "ev_exists (events s e)"
  shows "events (snd (step mint s c)) e =
           (events s e)\<lparr>ev_remainingTickets := ev_remainingTickets (events (snd (step mint s c)) e)\<rparr>"
proof (cases rule: step_elim [of mint s c])
  case (reverted err)
  then show ?thesis by simp
next
  case (created a now title st tot s')
  from assms have "e < nextEventId s" by (simp add: engine_inv_def inv_events_def)
  then have "e \<noteq> nextEventId s" by auto
  with created(3) show ?thesis by (simp add: createEvent_fields [OF created(2)])
next
  case (failed a now e' res)
  then show ?thesis by simp
next
  case (succeeded a now e' s')
  then show ?thesis by (simp add: grabTicket_success_fields [OF succeeded(2)])
qed

lemma run_event_frame:
  assumes "engine_inv s" and "ev_exists (events s e)"
  shows "events (run mint s cs) e =
           (events s e)\<lparr>ev_remainingTickets := ev_remainingTickets (events (run mint s cs) e)\<rparr>"
  using assms
proof (induction cs arbitrary: s)
  case Nil
  then show ?case by simp
next
  case (Cons c cs)
  let ?s1 = "snd (step mint s c)"
  note f = step_event_frame [OF Cons.prems, of mint c]
  from f Cons.prems(2) have ex: "ev_exists (events ?s1 e)"
    by (metis Event.select_convs(7) Event.surjective Event.update_convs(5))
  from Cons.prems(1) have inv: "engine_inv ?s1" by (rule engine_inv_step)
  from Cons.IH [OF inv ex] have
    "events (run mint ?s1 cs) e =
       (events ?s1 e)\<lparr>ev_remainingTickets := ev_remainingTickets (events (run mint ?s1 cs) e)\<rparr>" .
  also have "\<dots> = (events s e)\<lparr>ev_remainingTickets := ev_remainingTickets (events (run mint ?s1 cs) e)\<rparr>"
    by (subst f) simp
  finally show ?case by simp
qed

lemma step_eventTickets:
  "eventTickets (snd (step mint s c)) e =
     eventTickets s e @ map tk_id (filter (\<lambda>tk. tk_eventId tk = e) (issued (c, fst (step mint s c))))"
proof (cases rule: step_elim [of mint s c])
  case (reverted err)
  then show ?thesis by simp
next
  case (created a now title st tot s')
  then show ?thesis by (simp add: createEvent_fields [OF created(2)])
next
  case (failed a now e' res)
  then show ?thesis by simp
next
  case (succeeded a now e' s')
  then show ?thesis by (simp add: grabTicket_success_fields [OF succeeded(2)])
qed

lemma run_eventTickets:
  "eventTickets (run mint s cs) e = eventTickets s e @ map tk_id (issued_for e (trace mint s cs))"
proof (induction cs arbitrary: s)
  case Nil
  then show ?case by (simp add: issued_for_def issued_tickets_def)
next
  case (Cons c cs)
  show ?case
    using Cons.IH [of "snd (step mint s c)"] step_eventTickets [of mint s c e]
    by (simp add: issued_for_def issued_tickets_def)
qed

lemma step_ticket_frame:
  assumes "engine_inv s" and "tk_id (tickets s t) \<noteq> 0"
  shows "tickets (snd (step mint s c)) t = tickets s t"
proof (cases rule: step_elim [of mint s c])
  case (reverted err)
  then show ?thesis by simp
next
  case (created a now title st tot s')
  then show ?thesis by (simp add: createEvent_fields [OF created(2)])
next
  case (failed a now e' res)
  then show ?thesis by simp
next
  case (succeeded a now e' s')
  from assms have "t < nextTicketId s" by (simp add: engine_inv_def inv_tickets_def)
  then have "t \<noteq> nextTicketId s" by auto
  with succeeded(3) show ?thesis by (simp add: grabTicket_success_fields [OF succeeded(2)])
qed

lemma run_ticket_frame:
  assumes "engine_inv s" and "tk_id (tickets s t) \<noteq> 0"
  shows "tickets (run mint s cs) t = tickets s t"
  using assms
proof (induction cs arbitrary: s)
  case Nil
  then show ?case by simp
next
  case (Cons c cs)
  let ?s1 = "snd (step mint s c)"
  note f = step_ticket_frame [OF Cons.prems, of mint c]
  from Cons.prems(1) have inv: "engine_inv ?s1" by (rule engine_inv_step)
  from f Cons.prems(2) have "tk_id (tickets ?s1 t) \<noteq> 0" by simp
  from Cons.IH [OF inv this] f show ?case by simp
qed

lemma step_issued:
  "issued (c, fst (step mint s c)) = [] \<and> nextTicketId (snd (step mint s c)) = nextTicketId s \<or>
   (\<exists>tk. issued (c, fst (step mint s c)) = [tk] \<and> tk_id tk = nextTicketId s \<and>
         nextTicketId s \<noteq> - 1 \<and> nextTicketId (snd (step mint s c)) = nextTicketId s + 1 \<and>
         tickets (snd (step mint s c)) (nextTicketId s) = tk)"
proof (cases rule: step_elim [of mint s c])
  case (reverted err)
  then show ?thesis by simp
next
  case (created a now title st tot s')
  then show ?thesis by (simp add: createEvent_fields [OF created(2)])
next
  case (failed a now e' res)
  then show ?thesis by simp
next
  case (succeeded a now e' s')
  from grabTicket_success [OF succeeded(2)] have "nextTicketId s \<noteq> - 1" by simp
  with succeeded(1,3) show ?thesis by (simp add: grabTicket_success_fields [OF succeeded(2)])
qed

lemma run_issued_ids:
  "map (unat \<circ> tk_id) (issued_tickets (trace mint s cs))
     = [unat (nextTicketId s) ..< unat (nextTicketId (run mint s cs))] \<and>
   unat (nextTicketId s) \<le> unat (nextTicketId (run mint s cs))"
proof (induction cs arbitrary: s)
  case Nil
  then show ?case by (simp add: issued_tickets_def)
next
  case (Cons c cs)
  let ?s1 = "snd (step mint s c)"
  note IH = Cons.IH [of ?s1]
  from step_issued [of c mint s] show ?case
  proof (elim disjE conjE exE)
    assume "issued (c, fst (step mint s c)) = []" "nextTicketId ?s1 = nextTicketId s"
    with IH show ?thesis by (simp add: issued_tickets_def)
  next
    fix tk
    assume i: "issued (c, fst (step mint s c)) = [tk]" "tk_id tk = nextTicketId s"
      "nextTicketId s \<noteq> - 1" "nextTicketId ?s1 = nextTicketId s + 1"
    then have u: "unat (nextTicketId ?s1) = Suc (unat (nextTicketId s))" by (simp add: unat_inc)
    with IH have lt: "unat (nextTicketId s) < unat (nextTicketId (run mint ?s1 cs))" by simp
    from IH i u show ?thesis
      by (simp add: issued_tickets_def upt_conv_Cons [OF lt])
  qed
qed

lemma run_issued_stored:
  assumes "engine_inv s" and "tk \<in> set (issued_tickets (trace mint s cs))"
  shows "tickets (run mint s cs) (tk_id tk) = tk \<and> tk_id tk \<noteq> 0"
  using assms
proof (induction cs arbitrary: s)
  case Nil
  then show ?case by (simp add: issued_tickets_def)
next
  case (Cons c cs)
  let ?s1 = "snd (step mint s c)"
  from Cons.prems(1) have inv: "engine_inv ?s1" by (rule engine_inv_step)
  from Cons.prems(2) consider
      (head) "tk \<in> set (issued (c, fst (step mint s c)))"
    | (tail) "tk \<in> set (issued_tickets (trace mint ?s1 cs))"
    by (auto simp: issued_tickets_def)
  then show ?case
  proof cases
    case head
    with step_issued [of c mint s] have
      tk: "tk_id tk = nextTicketId s" "tickets ?s1 (nextTicketId s) = tk"
      by auto
    from Cons.prems(1) have nz: "nextTicketId s \<noteq> 0" by (simp add: engine_inv_def inv_counters_def)
    with tk have "tk_id (tickets ?s1 (tk_id tk)) \<noteq> 0" by simp
    from run_ticket_frame [OF inv this, of mint cs] tk nz show ?thesis by simp
  next
    case tail
    from Cons.IH [OF inv tail] show ?thesis by simp
  qed
qed

lemma step_outcome:
  assumes "engine_inv s" and "fst (step mint s c) = Grabbed ok res t"
  shows "(ok \<longleftrightarrow> res = Success) \<and> (ok \<longleftrightarrow> t \<noteq> 0)"
proof (cases rule: step_elim [of mint s c])
  case (reverted err)
  with assms show ?thesis by simp
next
  case (created a now title st tot s')
  with assms show ?thesis by simp
next
  case (failed a now e' res')
  with assms show ?thesis by auto
next
  case (succeeded a now e' s')
  from assms(1) have "nextTicketId s \<noteq> 0" by (simp add: engine_inv_def inv_counters_def)
  with assms succeeded show ?thesis by auto
qed

lemma trace_outcome:
  assumes "engine_inv s" and "(c, Grabbed ok res t) \<in> set (trace mint s cs)"
  shows "(ok \<longleftrightarrow> res = Success) \<and> (ok \<longleftrightarrow> t \<noteq> 0)"
  using assms
proof (induction cs arbitrary: s)
  case Nil
  then show ?case by simp
next
  case (Cons c' cs)
  from Cons.prems(2) consider
      (head) "fst (step mint s c') = Grabbed ok res t"
    | (tail) "(c, Grabbed ok res t) \<in> set (trace mint (snd (step mint s c')) cs)"
    by auto
  then show ?case
  proof cases
    case head
    with Cons.prems(1) show ?thesis by (rule step_outcome)
  next
    case tail
    with Cons.IH [OF engine_inv_step [OF Cons.prems(1)]] show ?thesis by blast
  qed
qed

subsection \<open>The loop of getRecentTickets\<close>

lemma getRecentTickets_loop_correct:
  assumes "len = length evtTickets" and "returnLen \<le> len"
    and "length ids = returnLen" and "length ows = returnLen" and "length acq = returnLen"
    and "i \<le> returnLen"
  shows "\<exists>ids' ows' acq'.
           getRecentTickets_loop tks evtTickets len returnLen i (ids, ows, acq) = Inr (ids', ows', acq') \<and>
           length ids' = returnLen \<and> length ows' = returnLen \<and> length acq' = returnLen \<and>
           (\<forall>j<returnLen.
              ids' ! j = (if j < i then ids ! j else evtTickets ! (len - 1 - j)) \<and>
              ows' ! j = (if j < i then ows ! j else tk_owner (tks (evtTickets ! (len - 1 - j)))) \<and>
              acq' ! j = (if j < i then acq ! j else tk_acquiredAt (tks (evtTickets ! (len - 1 - j)))))"
  using assms
proof (induction "returnLen - i" arbitrary: i ids ows acq)
  case 0
  then have "i = returnLen" by simp
  with 0 show ?case by (simp add: getRecentTickets_loop.simps)
next
  case (Suc n)
  then have lt: "i < returnLen" by simp
  let ?tId = "evtTickets ! (len - 1 - i)"
  let ?ids = "ids[i := ?tId]"
  let ?ows = "ows[i := tk_owner (tks ?tId)]"
  let ?acq = "acq[i := tk_acquiredAt (tks ?tId)]"
  from lt Suc.prems have c: "\<not> (len < 1 \<or> len - 1 < i)" "len - 1 - i < length evtTickets"
    "i < length ids" "i < length ows" "i < length acq"
    by linarith+
  have unfold:
    "getRecentTickets_loop tks evtTickets len returnLen i (ids, ows, acq) =
     getRecentTickets_loop tks evtTickets len returnLen (i + 1) (?ids, ?ows, ?acq)"
    by (subst getRecentTickets_loop.simps) (simp only: lt c if_True if_False not_True_eq_False simp_thms Let_def)
  from Suc.hyps(2) lt have n: "n = returnLen - (i + 1)" by simp
  from Suc.prems lt have
    "\<exists>ids' ows' acq'.
       getRecentTickets_loop tks evtTickets len returnLen (i + 1) (?ids, ?ows, ?acq)
         = Inr (ids', ows', acq') \<and>
       length ids' = returnLen \<and> length ows' = returnLen \<and> length acq' = returnLen \<and>
       (\<forall>j<returnLen.
          ids' ! j = (if j < i + 1 then ?ids ! j else evtTickets ! (len - 1 - j)) \<and>
          ows' ! j = (if j < i + 1 then ?ows ! j else tk_owner (tks (evtTickets ! (len - 1 - j)))) \<and>
          acq' ! j = (if j < i + 1 then ?acq ! j
                      else tk_acquiredAt (tks (evtTickets ! (len - 1 - j)))))"
    by (intro Suc.hyps(1) [OF n]) simp_all
  then obtain ids' ows' acq' where
    r: "getRecentTickets_loop tks evtTickets len returnLen (i + 1) (?ids, ?ows, ?acq)
         = Inr (ids', ows', acq')"
    and l: "length ids' = returnLen" "length ows' = returnLen" "length acq' = returnLen"
    and v: "\<And>j. j < returnLen \<Longrightarrow>
          ids' ! j = (if j < i + 1 then ?ids ! j else evtTickets ! (len - 1 - j)) \<and>
          ows' ! j = (if j < i + 1 then ?ows ! j else tk_owner (tks (evtTickets ! (len - 1 - j)))) \<and>
          acq' ! j = (if j < i + 1 then ?acq ! j
                      else tk_acquiredAt (tks (evtTickets ! (len - 1 - j))))"
    by blast
  have "ids' ! j = (if j < i then ids ! j else evtTickets ! (len - 1 - j)) \<and>
        ows' ! j = (if j < i then ows ! j else tk_owner (tks (evtTickets ! (len - 1 - j)))) \<and>
        acq' ! j = (if j < i then acq ! j else tk_acquiredAt (tks (evtTickets ! (len - 1 - j))))"
    if "j < returnLen" for j
  proof (cases "j = i")
    case True
    with v [OF that] Suc.prems lt show ?thesis by simp
  next
    case False
    with v [OF that] show ?thesis by (cases "j < i") simp_all
  qed
  with unfold r l show ?case by simp
qed

lemma getRecentTickets_eventTickets:
  "getRecentTickets s e limit =
     Inr (take (unat limit) (rev (eventTickets s e)),
          map (\<lambda>t. tk_owner (tickets s t)) (take (unat limit) (rev (eventTickets s e))),
          map (\<lambda>t. tk_acquiredAt (tickets s t)) (take (unat limit) (rev (eventTickets s e))))"
proof -
  let ?ev = "eventTickets s e"
  let ?len = "length ?ev"
  let ?k = "if ?len < unat limit then ?len else unat limit"
  have k: "?k \<le> ?len" "?k = min (unat limit) ?len" by auto
  from getRecentTickets_loop_correct [of ?len ?ev ?k "replicate ?k 0" "replicate ?k 0"
      "replicate ?k 0" 0 "tickets s"] k(1)
  obtain ids' ows' acq' where
    r: "getRecentTickets_loop (tickets s) ?ev ?len ?k 0 (replicate ?k 0, replicate ?k 0, replicate ?k 0)
          = Inr (ids', ows', acq')"
    and l: "length ids' = ?k" "length ows' = ?k" "length acq' = ?k"
    and v: "\<And>j. j < ?k \<Longrightarrow> ids' ! j = ?ev ! (?len - 1 - j) \<and>
                 ows' ! j = tk_owner (tickets s (?ev ! (?len - 1 - j))) \<and>
                 acq' ! j = tk_acquiredAt (tickets s (?ev ! (?len - 1 - j)))"
    by auto
  have nth: "take (unat limit) (rev ?ev) ! j = ?ev ! (?len - 1 - j)" if "j < ?k" for j
    using that unfolding k(2) by (simp add: rev_nth)
  have 1: "ids' = take (unat limit) (rev ?ev)"
    using l(1) k(2) v nth by (intro nth_equalityI) simp_all
  have 2: "ows' = map (\<lambda>t. tk_owner (tickets s t)) (take (unat limit) (rev ?ev))"
    using l(2) k(2) v nth by (intro nth_equalityI) simp_all
  have 3: "acq' = map (\<lambda>t. tk_acquiredAt (tickets s t)) (take (unat limit) (rev ?ev))"
    using l(3) k(2) v nth by (intro nth_equalityI) simp_all
  from r 1 2 3 show ?thesis
    by (simp add: getRecentTickets_def Let_def)
qed
subsection \<open>Events keep what they were created with\<close>

lemma run_created_event:
  assumes "engine_inv s"
    and "(CreateEvent a now title st tot, Created e) \<in> set (trace mint s cs)"
  shows "ev_exists (events (run mint s cs) e) \<and> ev_totalTickets (events (run mint s cs) e) = tot \<and>
         ev_title (events (run mint s cs) e) = title \<and> ev_startTime (events (run mint s cs) e) = st"
  using assms
proof (induction cs arbitrary: s)
  case Nil
  then show ?case by simp
next
  case (Cons c cs)
  let ?s1 = "snd (step mint s c)"
  from Cons.prems(1) have inv: "engine_inv ?s1" by (rule engine_inv_step)
  from Cons.prems(2) consider
      (head) "c = CreateEvent a now title st tot" "fst (step mint s c) = Created e"
    | (tail) "(CreateEvent a now title st tot, Created e) \<in> set (trace mint ?s1 cs)"
    by auto
  then show ?case
  proof cases
    case head
    have new: "events ?s1 e =
        \<lparr>ev_id = e, ev_title = title, ev_startTime = st, ev_totalTickets = tot,
         ev_remainingTickets = tot, ev_organizer = a, ev_exists = True\<rparr>"
    proof (cases rule: step_elim [of mint s c])
      case (reverted err)
      with head show ?thesis by simp
    next
      case (created a' now' title' st' tot' s')
      with head show ?thesis by (simp add: createEvent_fields [OF created(2)])
    next
      case (failed a' now' e' res)
      with head show ?thesis by simp
    next
      case (succeeded a' now' e' s')
      with head show ?thesis by simp
    qed
    then have ex: "ev_exists (events ?s1 e)" by simp
    from run_event_frame [OF inv ex, of mint cs] new show ?thesis
      by (metis Event.select_convs(2,3,4,7) Event.surjective Event.update_convs(5) run.simps(2))
  next
    case tail
    from Cons.IH [OF inv tail] show ?thesis by simp
  qed
qed

subsection \<open>The example scenario, step by step\<close>

lemmas engine_defs = createEvent_def grabTicket_def checked_inc_def checked_dec_def
  recordAttempt_def deployed_def zero_Event_def zero_Ticket_def ERC721_mint_def ERC721_deployed_def
  example_state_def example_calls_def Let_def

lemma example_steps:
  "createEvent (example_state 0) 9 1000 ''X'' 1100 2 = Inr (1, example_state 1)"
  "grabTicket ERC721_mint (example_state 1) 10 1050 1 = Inr ((False, NotStarted, 0), example_state 2)"
  "grabTicket ERC721_mint (example_state 2) 10 1150 1 = Inr ((True, Success, 1), example_state 3)"
  "grabTicket ERC721_mint (example_state 3) 10 1151 1 = Inr ((False, AlreadyOwnsTicket, 0), example_state 4)"
  "grabTicket ERC721_mint (example_state 4) 11 1152 1 = Inr ((True, Success, 2), example_state 5)"
  "grabTicket ERC721_mint (example_state 5) 12 1153 1 = Inr ((False, SoldOut, 0), example_state 6)"
  by (simp_all add: engine_defs)

lemma example_state_5:
  "ev_exists (events (example_state 5) 1)"
  "ev_startTime (events (example_state 5) 1) = 1100"
  "ev_remainingTickets (events (example_state 5) 1) = 0"
  "hasTicketForEvent (example_state 5) 1 10"
  "\<not> hasTicketForEvent (example_state 5) 1 12"
  by (simp_all add: engine_defs)

lemma example_state_0: "deployed ERC721_deployed = example_state 0"
  by (simp add: example_state_def)

lemma example_trace:
  "trace ERC721_mint (deployed ERC721_deployed) example_calls =
     [(CreateEvent 9 1000 ''X'' 1100 2, Created 1),
      (GrabTicket 10 1050 1, Grabbed False NotStarted 0),
      (GrabTicket 10 1150 1, Grabbed True Success 1),
      (GrabTicket 10 1151 1, Grabbed False AlreadyOwnsTicket 0),
      (GrabTicket 11 1152 1, Grabbed True Success 2),
      (GrabTicket 12 1153 1, Grabbed False SoldOut 0)]"
  by (simp add: example_state_0 example_calls_def example_steps del: One_nat_def)

lemma example_run: "run ERC721_mint (deployed ERC721_deployed) example_calls = example_state 6"
  by (simp add: example_state_def example_calls_def)

lemma example_issued:
  "issued_tickets (trace ERC721_mint (deployed ERC721_deployed) example_calls) =
     [\<lparr>tk_id = 1, tk_eventId = 1, tk_owner = 10, tk_acquiredAt = 1150\<rparr>,
      \<lparr>tk_id = 2, tk_eventId = 1, tk_owner = 11, tk_acquiredAt = 1152\<rparr>]"
  "issued_for 1 (trace ERC721_mint (deployed ERC721_deployed) example_calls) =
     [\<lparr>tk_id = 1, tk_eventId = 1, tk_owner = 10, tk_acquiredAt = 1150\<rparr>,
      \<lparr>tk_id = 2, tk_eventId = 1, tk_owner = 11, tk_acquiredAt = 1152\<rparr>]"
  by (simp_all add: example_trace issued_for_def issued_tickets_def)

section \<open>The claims\<close>

subsection \<open>C1: no oversell\<close>

text \<open>
  Claim C1. After any sequence of \<^verbatim>\<open>createEvent\<close> and \<^verbatim>\<open>grabTicket\<close> transactions on
  the deployed contract, and for every event id: \<open>0 \<le> remainingTickets \<le> totalTickets\<close>;
  the number of calls of \<^verbatim>\<open>grabTicket\<close> for that event that returned success, which is
  also the length of the event's ticket list, equals \<open>totalTickets - remainingTickets\<close>
  and so does not exceed \<open>totalTickets\<close>; and an event that some \<^verbatim>\<open>createEvent\<close> of the
  sequence has created with \<open>tot\<close> tickets still exists and still has
  \<open>totalTickets = tot\<close>.
\<close>

theorem no_oversell:
  "0 \<le> ev_remainingTickets (events (run mint (deployed n0) cs) e) \<and>
   ev_remainingTickets (events (run mint (deployed n0) cs) e)
     \<le> ev_totalTickets (events (run mint (deployed n0) cs) e) \<and>
   length (issued_for e (trace mint (deployed n0) cs))
     = unat (ev_totalTickets (events (run mint (deployed n0) cs) e))
       - unat (ev_remainingTickets (events (run mint (deployed n0) cs) e)) \<and>
   length (issued_for e (trace mint (deployed n0) cs))
     \<le> unat (ev_totalTickets (events (run mint (deployed n0) cs) e)) \<and>
   length (eventTickets (run mint (deployed n0) cs) e)
     = length (issued_for e (trace mint (deployed n0) cs)) \<and>
   (\<forall>a now title st tot.
      (CreateEvent a now title st tot, Created e) \<in> set (trace mint (deployed n0) cs) \<longrightarrow>
      ev_exists (events (run mint (deployed n0) cs) e) \<and>
      ev_totalTickets (events (run mint (deployed n0) cs) e) = tot)"
proof -
  let ?s = "run mint (deployed n0) cs"
  have inv: "engine_inv ?s" by (simp add: engine_inv_run engine_inv_deployed)
  then have cap: "unat (ev_remainingTickets (events ?s e)) + length (eventTickets ?s e)
                    = unat (ev_totalTickets (events ?s e))"
    by (simp add: engine_inv_def inv_capacity_def)
  have "eventTickets (deployed n0) e = []" by (simp add: deployed_def)
  with run_eventTickets [of mint "deployed n0" cs e]
  have len: "length (eventTickets ?s e) = length (issued_for e (trace mint (deployed n0) cs))"
    by simp
  have le: "ev_remainingTickets (events ?s e) \<le> ev_totalTickets (events ?s e)"
    using cap by (simp add: word_le_nat_alt)
  have created: "ev_exists (events ?s e) \<and> ev_totalTickets (events ?s e) = tot"
    if "(CreateEvent a now title st tot, Created e) \<in> set (trace mint (deployed n0) cs)"
    for a now title st tot
    using run_created_event [OF engine_inv_deployed that] by simp
  from cap len le created show ?thesis by simp
qed

text \<open>In the example both tickets of event 1 are handed out: two successful claims, two
  entries in the ticket list, a total of 2 as created and nothing remaining.\<close>

theorem no_oversell_witness:
  "(CreateEvent 9 1000 ''X'' 1100 2, Created 1)
     \<in> set (trace ERC721_mint (deployed ERC721_deployed) example_calls) \<and>
   ev_exists (events (example_state 6) 1) \<and>
   ev_totalTickets (events (example_state 6) 1) = 2 \<and>
   length (issued_for 1 (trace ERC721_mint (deployed ERC721_deployed) example_calls)) = 2 \<and>
   length (eventTickets (example_state 6) 1) = 2 \<and>
   unat (ev_remainingTickets (events (example_state 6) 1)) = 0"
proof -
  have c: "(CreateEvent 9 1000 ''X'' 1100 2, Created 1)
     \<in> set (trace ERC721_mint (deployed ERC721_deployed) example_calls)"
    by (simp add: example_trace)
  have n: "length (issued_for 1 (trace ERC721_mint (deployed ERC721_deployed) example_calls)) = 2"
    by (simp add: example_issued)
  note t = no_oversell [of ERC721_mint ERC721_deployed example_calls 1, unfolded example_run n]
  from t c have e: "ev_exists (events (example_state 6) 1)"
    and tot: "ev_totalTickets (events (example_state 6) 1) = 2"
    by blast+
  from t have le: "ev_remainingTickets (events (example_state 6) 1)
                     \<le> ev_totalTickets (events (example_state 6) 1)"
    and d: "2 = unat (ev_totalTickets (events (example_state 6) 1))
               - unat (ev_remainingTickets (events (example_state 6) 1))"
    and l: "length (eventTickets (example_state 6) 1) = 2"
    by blast+
  from le have le': "unat (ev_remainingTickets (events (example_state 6) 1))
                       \<le> unat (ev_totalTickets (events (example_state 6) 1))"
    by (rule word_le_nat_alt [THEN iffD1])
  have tot': "unat (ev_totalTickets (events (example_state 6) 1)) = 2"
    by (simp only: tot unat_numeral) simp
  from d le' tot' have r: "unat (ev_remainingTickets (events (example_state 6) 1)) = 0"
    by linarith
  from c e tot n l r show ?thesis by blast
qed

subsection \<open>C2: the order of the checks\<close>

text \<open>
  Claim C2. For an event that exists, \<^verbatim>\<open>grabTicket\<close> decides in the order timing,
  duplicate, exhaustion. Before the start time the outcome is \<open>NotStarted\<close>, whether or
  not the caller holds a ticket and whether or not tickets remain. From the start time
  on, a caller who holds a ticket gets \<open>AlreadyOwnsTicket\<close>, whether or not tickets
  remain. \<open>SoldOut\<close> is returned exactly when the event has started, the caller holds no
  ticket and no ticket remains. (Existence is checked before all of these: see C6.)
\<close>

theorem grabTicket_check_order:
  assumes "ev_exists (events s eventId)"
  shows "(now < ev_startTime (events s eventId) \<longrightarrow>
            grabTicket mint s sender now eventId =
              Inr ((False, NotStarted, 0), recordAttempt s sender now eventId NotStarted)) \<and>
         (\<not> now < ev_startTime (events s eventId) \<and> hasTicketForEvent s eventId sender \<longrightarrow>
            grabTicket mint s sender now eventId =
              Inr ((False, AlreadyOwnsTicket, 0),
                   recordAttempt s sender now eventId AlreadyOwnsTicket)) \<and>
         (\<not> now < ev_startTime (events s eventId) \<and> \<not> hasTicketForEvent s eventId sender \<and>
          ev_remainingTickets (events s eventId) = 0 \<longrightarrow>
            grabTicket mint s sender now eventId =
              Inr ((False, SoldOut, 0), recordAttempt s sender now eventId SoldOut)) \<and>
         (\<forall>ok ticketId s'. grabTicket mint s sender now eventId = Inr ((ok, SoldOut, ticketId), s') \<longrightarrow>
            \<not> now < ev_startTime (events s eventId) \<and> \<not> hasTicketForEvent s eventId sender \<and>
            ev_remainingTickets (events s eventId) = 0)"
proof (intro conjI impI allI)
  assume "now < ev_startTime (events s eventId)"
  with assms show "grabTicket mint s sender now eventId =
              Inr ((False, NotStarted, 0), recordAttempt s sender now eventId NotStarted)"
    by (simp add: grabTicket_def)
next
  assume "\<not> now < ev_startTime (events s eventId) \<and> hasTicketForEvent s eventId sender"
  with assms show "grabTicket mint s sender now eventId =
              Inr ((False, AlreadyOwnsTicket, 0),
                   recordAttempt s sender now eventId AlreadyOwnsTicket)"
    by (simp add: grabTicket_def)
next
  assume "\<not> now < ev_startTime (events s eventId) \<and> \<not> hasTicketForEvent s eventId sender \<and>
          ev_remainingTickets (events s eventId) = 0"
  with assms show "grabTicket mint s sender now eventId =
              Inr ((False, SoldOut, 0), recordAttempt s sender now eventId SoldOut)"
    by (simp add: grabTicket_def)
next
  fix ok ticketId s'
  assume g: "grabTicket mint s sender now eventId = Inr ((ok, SoldOut, ticketId), s')"
  show "\<not> now < ev_startTime (events s eventId)"
    using g by (auto simp: grabTicket_def Let_def checked_inc_def checked_dec_def
                     split: if_splits sum.splits)
  show "\<not> hasTicketForEvent s eventId sender"
    using g by (auto simp: grabTicket_def Let_def checked_inc_def checked_dec_def
                     split: if_splits sum.splits)
  show "ev_remainingTickets (events s eventId) = 0"
    using g by (auto simp: grabTicket_def Let_def checked_inc_def checked_dec_def
                     split: if_splits sum.splits)
qed

text \<open>
  After both tickets of the example event are gone, a claim by account 10, who holds
  one, dated before the start time meets all three conditions at once and reports
  \<open>NotStarted\<close>; dated after the start it reports \<open>AlreadyOwnsTicket\<close>; account 12, who
  holds none, is told \<open>SoldOut\<close>.
\<close>

theorem grabTicket_check_order_witness:
  "ev_exists (events (example_state 5) 1) \<and>
   (1050 :: uint256) < ev_startTime (events (example_state 5) 1) \<and>
   hasTicketForEvent (example_state 5) 1 10 \<and>
   ev_remainingTickets (events (example_state 5) 1) = 0 \<and>
   grabTicket ERC721_mint (example_state 5) 10 1050 1 =
     Inr ((False, NotStarted, 0), recordAttempt (example_state 5) 10 1050 1 NotStarted) \<and>
   \<not> (1160 :: uint256) < ev_startTime (events (example_state 5) 1) \<and>
   grabTicket ERC721_mint (example_state 5) 10 1160 1 =
     Inr ((False, AlreadyOwnsTicket, 0),
          recordAttempt (example_state 5) 10 1160 1 AlreadyOwnsTicket) \<and>
   \<not> hasTicketForEvent (example_state 5) 1 12 \<and>
   grabTicket ERC721_mint (example_state 5) 12 1160 1 =
     Inr ((False, SoldOut, 0), recordAttempt (example_state 5) 12 1160 1 SoldOut)"
proof -
  note e = example_state_5(1)
  have early: "(1050 :: uint256) < ev_startTime (events (example_state 5) 1)"
    and started: "\<not> (1160 :: uint256) < ev_startTime (events (example_state 5) 1)"
    by (simp_all add: example_state_5(2))
  have 1: "grabTicket ERC721_mint (example_state 5) 10 1050 1 =
     Inr ((False, NotStarted, 0), recordAttempt (example_state 5) 10 1050 1 NotStarted)"
    using grabTicket_check_order [OF e, of 1050 ERC721_mint 10] early by blast
  have 2: "grabTicket ERC721_mint (example_state 5) 10 1160 1 =
     Inr ((False, AlreadyOwnsTicket, 0),
          recordAttempt (example_state 5) 10 1160 1 AlreadyOwnsTicket)"
    using grabTicket_check_order [OF e, of 1160 ERC721_mint 10] started example_state_5(4) by blast
  have 3: "grabTicket ERC721_mint (example_state 5) 12 1160 1 =
     Inr ((False, SoldOut, 0), recordAttempt (example_state 5) 12 1160 1 SoldOut)"
    using grabTicket_check_order [OF e, of 1160 ERC721_mint 12] started example_state_5(3,5) by blast
  show ?thesis
    using e early started 1 2 3 example_state_5(3,4,5) by blast
qed

subsection \<open>C3: one ticket per event and claimant\<close>

text \<open>
  Claim C3. After any sequence of transactions on the deployed contract, no two
  successful calls of \<^verbatim>\<open>grabTicket\<close> were made for the same event by the same account,
  however often the account has tried; every ticket handed out is stored under its id
  exactly as it was issued, and stays so whatever transactions follow; two stored tickets
  with the same event and the same owner are the same ticket; and no later transaction
  changes or removes a stored ticket.
\<close>

theorem one_ticket_per_claimant:
  "distinct (map (\<lambda>tk. (tk_eventId tk, tk_owner tk))
               (issued_tickets (trace mint (deployed n0) cs))) \<and>
   (\<forall>tk \<in> set (issued_tickets (trace mint (deployed n0) cs)). \<forall>cs'.
      tickets (run mint (run mint (deployed n0) cs) cs') (tk_id tk) = tk) \<and>
   (\<forall>t1 t2. tk_id (tickets (run mint (deployed n0) cs) t1) \<noteq> 0 \<and>
            tk_id (tickets (run mint (deployed n0) cs) t2) \<noteq> 0 \<and>
            tk_eventId (tickets (run mint (deployed n0) cs) t1)
              = tk_eventId (tickets (run mint (deployed n0) cs) t2) \<and>
            tk_owner (tickets (run mint (deployed n0) cs) t1)
              = tk_owner (tickets (run mint (deployed n0) cs) t2) \<longrightarrow> t1 = t2) \<and>
   (\<forall>t cs'. tk_id (tickets (run mint (deployed n0) cs) t) \<noteq> 0 \<longrightarrow>
      tickets (run mint (run mint (deployed n0) cs) cs') t = tickets (run mint (deployed n0) cs) t)"
proof -
  let ?s = "run mint (deployed n0) cs"
  let ?xs = "issued_tickets (trace mint (deployed n0) cs)"
  have inv: "engine_inv ?s" by (simp add: engine_inv_run engine_inv_deployed)
  have stored: "tickets ?s (tk_id tk) = tk \<and> tk_id tk \<noteq> 0" if "tk \<in> set ?xs" for tk
    using run_issued_stored [OF engine_inv_deployed that] .
  have frame: "tickets (run mint ?s cs') t = tickets ?s t" if "tk_id (tickets ?s t) \<noteq> 0" for t cs'
    using inv that by (rule run_ticket_frame)
  have unique: "t1 = t2"
    if "tk_id (tickets ?s t1) \<noteq> 0" "tk_id (tickets ?s t2) \<noteq> 0"
      "tk_eventId (tickets ?s t1) = tk_eventId (tickets ?s t2)"
      "tk_owner (tickets ?s t1) = tk_owner (tickets ?s t2)" for t1 t2
  proof -
    from inv that(1) have
      a: "userTicketForEvent ?s (tk_eventId (tickets ?s t1)) (tk_owner (tickets ?s t1)) = t1"
      unfolding engine_inv_def inv_tickets_def by blast
    from inv that(2) have
      b: "userTicketForEvent ?s (tk_eventId (tickets ?s t2)) (tk_owner (tickets ?s t2)) = t2"
      unfolding engine_inv_def inv_tickets_def by blast
    from a [symmetric] have
      "t1 = userTicketForEvent ?s (tk_eventId (tickets ?s t1)) (tk_owner (tickets ?s t1))" .
    also have "\<dots> = userTicketForEvent ?s (tk_eventId (tickets ?s t2)) (tk_owner (tickets ?s t2))"
      by (simp only: that(3,4))
    also note b
    finally show ?thesis .
  qed
  have "distinct (map tk_id ?xs)"
  proof -
    have "sorted_wrt (<) (map (unat \<circ> tk_id) ?xs)"
      using run_issued_ids [of mint "deployed n0" cs] by (simp only: sorted_wrt_upt)
    then have "sorted_wrt (<) (map tk_id ?xs)"
      by (simp add: sorted_wrt_map word_less_nat_alt)
    then show ?thesis by (simp add: strict_sorted_iff)
  qed
  then have d: "distinct ?xs" by (simp add: distinct_map)
  have "inj_on (\<lambda>tk. (tk_eventId tk, tk_owner tk)) (set ?xs)"
  proof (rule inj_onI)
    fix x y
    assume x: "x \<in> set ?xs" and y: "y \<in> set ?xs"
      and eq: "(tk_eventId x, tk_owner x) = (tk_eventId y, tk_owner y)"
    have "tk_id x = tk_id y"
    proof (rule unique)
      show "tk_id (tickets ?s (tk_id x)) \<noteq> 0" using stored [OF x] by simp
      show "tk_id (tickets ?s (tk_id y)) \<noteq> 0" using stored [OF y] by simp
      show "tk_eventId (tickets ?s (tk_id x)) = tk_eventId (tickets ?s (tk_id y))"
        using stored [OF x] stored [OF y] eq by simp
      show "tk_owner (tickets ?s (tk_id x)) = tk_owner (tickets ?s (tk_id y))"
        using stored [OF x] stored [OF y] eq by simp
    qed
    from stored [OF x] have "x = tickets ?s (tk_id x)" by simp
    also from \<open>tk_id x = tk_id y\<close> have "\<dots> = tickets ?s (tk_id y)" by simp
    also from stored [OF y] have "\<dots> = y" by simp
    finally show "x = y" .
  qed
  with d have 1: "distinct (map (\<lambda>tk. (tk_eventId tk, tk_owner tk)) ?xs)"
    by (simp add: distinct_map)
  have 2: "tickets (run mint ?s cs') (tk_id tk) = tk" if "tk \<in> set ?xs" for tk cs'
    using stored [OF that] frame [of "tk_id tk" cs'] by simp
  show ?thesis
  proof (intro conjI ballI allI impI)
    show "distinct (map (\<lambda>tk. (tk_eventId tk, tk_owner tk)) ?xs)" by (rule 1)
  next
    fix tk cs' assume "tk \<in> set ?xs"
    then show "tickets (run mint ?s cs') (tk_id tk) = tk" by (rule 2)
  next
    fix t1 t2
    assume h: "tk_id (tickets ?s t1) \<noteq> 0 \<and> tk_id (tickets ?s t2) \<noteq> 0 \<and>
            tk_eventId (tickets ?s t1) = tk_eventId (tickets ?s t2) \<and>
            tk_owner (tickets ?s t1) = tk_owner (tickets ?s t2)"
    show "t1 = t2" by (rule unique) (simp_all add: h)
  next
    fix t cs' assume "tk_id (tickets ?s t) \<noteq> 0"
    then show "tickets (run mint ?s cs') t = tickets ?s t" by (rule frame)
  qed
qed

text \<open>In the example accounts 10 and 11 hold one ticket each for event 1, stored under the
  ids 1 and 2; a further claim by account 10 leaves ticket 1 as it is.\<close>

theorem one_ticket_per_claimant_witness:
  "issued_tickets (trace ERC721_mint (deployed ERC721_deployed) example_calls) =
     [\<lparr>tk_id = 1, tk_eventId = 1, tk_owner = 10, tk_acquiredAt = 1150\<rparr>,
      \<lparr>tk_id = 2, tk_eventId = 1, tk_owner = 11, tk_acquiredAt = 1152\<rparr>] \<and>
   tickets (example_state 6) 1 = \<lparr>tk_id = 1, tk_eventId = 1, tk_owner = 10, tk_acquiredAt = 1150\<rparr> \<and>
   tickets (example_state 6) 2 = \<lparr>tk_id = 2, tk_eventId = 1, tk_owner = 11, tk_acquiredAt = 1152\<rparr> \<and>
   tickets (run ERC721_mint (example_state 6) [GrabTicket 10 1200 1]) 1 =
     \<lparr>tk_id = 1, tk_eventId = 1, tk_owner = 10, tk_acquiredAt = 1150\<rparr>"
proof -
  note i = example_issued(1)
  note t = one_ticket_per_claimant [of ERC721_mint ERC721_deployed example_calls,
      unfolded example_run i]
  let ?tk1 = "\<lparr>tk_id = 1, tk_eventId = 1, tk_owner = 10, tk_acquiredAt = 1150\<rparr>"
  let ?tk2 = "\<lparr>tk_id = 2, tk_eventId = 1, tk_owner = 11, tk_acquiredAt = 1152\<rparr>"
  from t have st: "\<forall>tk\<in>set [?tk1, ?tk2]. \<forall>cs'.
      tickets (run ERC721_mint (example_state 6) cs') (tk_id tk) = tk"
    by blast
  have s1: "tickets (run ERC721_mint (example_state 6) cs') 1 = ?tk1" for cs'
    using st by simp
  have s2: "tickets (run ERC721_mint (example_state 6) cs') 2 = ?tk2" for cs'
    using st by simp
  from s1 [of "[]"] have a: "tickets (example_state 6) 1 = ?tk1" by simp
  from s2 [of "[]"] have b: "tickets (example_state 6) 2 = ?tk2" by simp
  from i a b s1 [of "[GrabTicket 10 1200 1]"] show ?thesis by blast
qed

subsection \<open>C4: every claim that returns is logged once\<close>

text \<open>
  Claim C4. Every call of \<^verbatim>\<open>grabTicket\<close> that returns an outcome, whichever of the four
  it is, appends exactly one entry to the caller's attempt log; the entry carries the
  event id, the caller, the timestamp and the outcome returned by the call. The logs of
  all other accounts are untouched. (A call that reverts writes nothing: see C6.)
\<close>

theorem grabTicket_ledger_complete:
  assumes "grabTicket mint s sender now eventId = Inr ((ok, res, ticketId), s')"
  shows "userAttempts s' sender = userAttempts s sender @
           [\<lparr>at_eventId = eventId, at_participant = sender, at_timestamp = now, at_result = res\<rparr>] \<and>
         (\<forall>a. a \<noteq> sender \<longrightarrow> userAttempts s' a = userAttempts s a)"
proof (cases ok)
  case True
  with assms have "grabTicket mint s sender now eventId = Inr ((True, res, ticketId), s')" by simp
  from grabTicket_success [OF this] show ?thesis by auto
next
  case False
  with assms have "s' = recordAttempt s sender now eventId res"
    by (simp add: grabTicket_failure)
  then show ?thesis by (simp add: recordAttempt_def)
qed

text \<open>The four outcomes, in the example scenario.\<close>

theorem grabTicket_ledger_complete_witness:
  "grabTicket ERC721_mint (example_state 1) 10 1050 1 = Inr ((False, NotStarted, 0), example_state 2) \<and>
   userAttempts (example_state 2) 10 = userAttempts (example_state 1) 10 @
     [\<lparr>at_eventId = 1, at_participant = 10, at_timestamp = 1050, at_result = NotStarted\<rparr>] \<and>
   grabTicket ERC721_mint (example_state 2) 10 1150 1 = Inr ((True, Success, 1), example_state 3) \<and>
   userAttempts (example_state 3) 10 = userAttempts (example_state 2) 10 @
     [\<lparr>at_eventId = 1, at_participant = 10, at_timestamp = 1150, at_result = Success\<rparr>] \<and>
   grabTicket ERC721_mint (example_state 3) 10 1151 1 =
     Inr ((False, AlreadyOwnsTicket, 0), example_state 4) \<and>
   userAttempts (example_state 4) 10 = userAttempts (example_state 3) 10 @
     [\<lparr>at_eventId = 1, at_participant = 10, at_timestamp = 1151, at_result = AlreadyOwnsTicket\<rparr>] \<and>
   grabTicket ERC721_mint (example_state 5) 12 1153 1 = Inr ((False, SoldOut, 0), example_state 6) \<and>
   userAttempts (example_state 6) 12 = userAttempts (example_state 5) 12 @
     [\<lparr>at_eventId = 1, at_participant = 12, at_timestamp = 1153, at_result = SoldOut\<rparr>]"
  using grabTicket_ledger_complete [OF example_steps(2)]
    grabTicket_ledger_complete [OF example_steps(3)]
    grabTicket_ledger_complete [OF example_steps(4)]
    grabTicket_ledger_complete [OF example_steps(6)]
    example_steps
  by blast

subsection \<open>C5: createEvent and its arguments\<close>

text \<open>
  Claim C5. \<^verbatim>\<open>createEvent\<close> reverts with one of the three argument errors (the spec's
  \<open>InvalidArgument\<close>) exactly when the title is empty, or the number of tickets is below
  1, or the start time is not strictly after the current time. A call that reverts, for
  whatever reason, leaves the storage as it was. A call that returns hands out the
  current \<open>nextEventId\<close> and advances the counter by one without wrapping, stores the event
  under that id with \<open>remainingTickets = totalTickets\<close>, leaves every other event alone
  and appends the id to the list of all events.
\<close>

theorem createEvent_InvalidArgument:
  "((\<exists>e. createEvent s sender now title startTime totalTickets = Inl e \<and> InvalidArgument e)
      \<longleftrightarrow> (title = [] \<or> totalTickets < 1 \<or> \<not> now < startTime)) \<and>
   (\<forall>e. createEvent s sender now title startTime totalTickets = Inl e \<longrightarrow>
      step mint s (CreateEvent sender now title startTime totalTickets) = (Reverted e, s)) \<and>
   (\<forall>eventId s'. createEvent s sender now title startTime totalTickets = Inr (eventId, s') \<longrightarrow>
      eventId = nextEventId s \<and> nextEventId s' = nextEventId s + 1 \<and>
      nextEventId s < nextEventId s' \<and>
      events s' eventId =
        \<lparr>ev_id = eventId, ev_title = title, ev_startTime = startTime,
         ev_totalTickets = totalTickets, ev_remainingTickets = totalTickets,
         ev_organizer = sender, ev_exists = True\<rparr> \<and>
      (\<forall>e. e \<noteq> eventId \<longrightarrow> events s' e = events s e) \<and>
      allEventIds s' = allEventIds s @ [eventId])"
proof (intro conjI allI impI)
  have lt1: "totalTickets < 1 \<longleftrightarrow> \<not> 0 < totalTickets"
    by (auto simp: word_less_1 word_gt_0)
  show "(\<exists>e. createEvent s sender now title startTime totalTickets = Inl e \<and> InvalidArgument e)
      \<longleftrightarrow> (title = [] \<or> totalTickets < 1 \<or> \<not> now < startTime)"
    unfolding lt1
    by (auto simp: createEvent_def checked_inc_def InvalidArgument_def Let_def split: if_splits)
next
  fix e
  assume "createEvent s sender now title startTime totalTickets = Inl e"
  then show "step mint s (CreateEvent sender now title startTime totalTickets) = (Reverted e, s)"
    by simp
next
  fix eventId s'
  assume c: "createEvent s sender now title startTime totalTickets = Inr (eventId, s')"
  note i = createEvent_Inr [OF c] and f = createEvent_fields [OF c]
  show "eventId = nextEventId s" using i by simp
  show "nextEventId s' = nextEventId s + 1" by (rule f)
  show "nextEventId s < nextEventId s'" using i by (simp add: f inc_less)
  show "events s' eventId =
        \<lparr>ev_id = eventId, ev_title = title, ev_startTime = startTime,
         ev_totalTickets = totalTickets, ev_remainingTickets = totalTickets,
         ev_organizer = sender, ev_exists = True\<rparr>"
    using i by (simp add: f)
  show "allEventIds s' = allEventIds s @ [eventId]" using i by (simp add: f)
  fix e assume "e \<noteq> eventId"
  then show "events s' e = events s e" using i by (simp add: f)
qed

text \<open>Scenario 5 of the spec, at time 1000 on the freshly deployed contract: an empty
  title, a start time in the past and a capacity of zero are each rejected; the call of
  scenario 1 returns id 1 and stores the event with two tickets remaining.\<close>

theorem createEvent_InvalidArgument_witness:
  "(\<exists>e. createEvent (example_state 0) 9 1000 [] 1100 10 = Inl e \<and> InvalidArgument e) \<and>
   (\<exists>e. createEvent (example_state 0) 9 1000 ''X'' 990 10 = Inl e \<and> InvalidArgument e) \<and>
   (\<exists>e. createEvent (example_state 0) 9 1000 ''X'' 1100 0 = Inl e \<and> InvalidArgument e) \<and>
   \<not> (\<exists>e. createEvent (example_state 0) 9 1000 ''X'' 1100 2 = Inl e \<and> InvalidArgument e) \<and>
   createEvent (example_state 0) 9 1000 ''X'' 1100 2 = Inr (1, example_state 1) \<and>
   nextEventId (example_state 1) = nextEventId (example_state 0) + 1 \<and>
   events (example_state 1) 1 =
     \<lparr>ev_id = 1, ev_title = ''X'', ev_startTime = 1100, ev_totalTickets = 2,
      ev_remainingTickets = 2, ev_organizer = 9, ev_exists = True\<rparr>"
proof -
  have a: "(1000 :: uint256) < 1100" "\<not> (1000 :: uint256) < 990" "\<not> (2 :: uint256) < 1"
    "(0 :: uint256) < 1" "''X'' \<noteq> []"
    by simp_all
  show ?thesis
    using createEvent_InvalidArgument [of "example_state 0" 9 1000 "[]" 1100 10 ERC721_mint]
      createEvent_InvalidArgument [of "example_state 0" 9 1000 "''X''" 990 10 ERC721_mint]
      createEvent_InvalidArgument [of "example_state 0" 9 1000 "''X''" 1100 0 ERC721_mint]
      createEvent_InvalidArgument [of "example_state 0" 9 1000 "''X''" 1100 2 ERC721_mint]
      example_steps(1) a
    by blast
qed

subsection \<open>C6: a claim on an event that was never created\<close>

text \<open>
  Claim C6. After any sequence of transactions on the deployed contract, a call of
  \<^verbatim>\<open>grabTicket\<close> with an event id that no \<^verbatim>\<open>createEvent\<close> of the sequence has returned
  reverts with "Event does not exist" (the spec's \<open>NotFound\<close>), and the storage after the
  transaction is the storage before it: no attempt is logged, no ticket issued, no
  capacity or counter changed.
\<close>

theorem grabTicket_NotFound:
  assumes "Created eventId \<notin> snd ` set (trace mint (deployed n0) cs)"
  shows "\<not> ev_exists (events (run mint (deployed n0) cs) eventId) \<and>
         grabTicket mint (run mint (deployed n0) cs) sender now eventId = Inl Event_does_not_exist \<and>
         NotFound Event_does_not_exist \<and>
         step mint (run mint (deployed n0) cs) (GrabTicket sender now eventId)
           = (Reverted Event_does_not_exist, run mint (deployed n0) cs)"
proof -
  have "\<not> ev_exists (events (deployed n0) eventId)"
    by (simp add: deployed_def zero_Event_def)
  with assms run_created [of mint "deployed n0" cs eventId]
  have "\<not> ev_exists (events (run mint (deployed n0) cs) eventId)" by blast
  then show ?thesis
    by (simp add: grabTicket_missing_event NotFound_def)
qed

text \<open>In the example only event 1 was created; a claim on event 7 reverts and the
  storage stays as it is.\<close>

theorem grabTicket_NotFound_witness:
  "Created 7 \<notin> snd ` set (trace ERC721_mint (deployed ERC721_deployed) example_calls) \<and>
   grabTicket ERC721_mint (example_state 6) 12 1153 7 = Inl Event_does_not_exist \<and>
   step ERC721_mint (example_state 6) (GrabTicket 12 1153 7)
     = (Reverted Event_does_not_exist, example_state 6)"
proof -
  have n: "Created 7 \<notin> snd ` set (trace ERC721_mint (deployed ERC721_deployed) example_calls)"
    by (simp add: example_trace)
  from grabTicket_NotFound [OF n, of 12 1153] n show ?thesis
    by (simp only: example_run) blast
qed

subsection \<open>C7: ticket ids\<close>

text \<open>
  Claim C7. Along any sequence of transactions on the deployed contract, the ticket ids
  returned by the successful calls of \<^verbatim>\<open>grabTicket\<close>, over all events and in the order
  of the calls, are strictly increasing and pairwise distinct: they are 1, 2, 3, ... without
  a gap. The counter \<open>nextTicketId\<close> is one more than the number of successful calls, so a
  call that fails or reverts takes no id.
\<close>

theorem ticket_ids_increasing:
  "sorted_wrt (<) (map tk_id (issued_tickets (trace mint (deployed n0) cs))) \<and>
   distinct (map tk_id (issued_tickets (trace mint (deployed n0) cs))) \<and>
   map (unat \<circ> tk_id) (issued_tickets (trace mint (deployed n0) cs))
     = [1 ..< Suc (length (issued_tickets (trace mint (deployed n0) cs)))] \<and>
   unat (nextTicketId (run mint (deployed n0) cs))
     = Suc (length (issued_tickets (trace mint (deployed n0) cs)))"
proof -
  let ?xs = "issued_tickets (trace mint (deployed n0) cs)"
  let ?n = "unat (nextTicketId (run mint (deployed n0) cs))"
  have one: "unat (nextTicketId (deployed n0)) = 1" by (simp add: deployed_def)
  from run_issued_ids [of mint "deployed n0" cs] one
  have ids: "map (unat \<circ> tk_id) ?xs = [1 ..< ?n]" and le: "1 \<le> ?n" by simp_all
  from ids have "length ?xs = ?n - 1" by (metis length_map length_upt)
  with le have n: "?n = Suc (length ?xs)" by simp
  have "sorted_wrt (<) (map (unat \<circ> tk_id) ?xs)" by (simp only: ids sorted_wrt_upt)
  then have sorted: "sorted_wrt (<) (map tk_id ?xs)"
    by (simp add: sorted_wrt_map word_less_nat_alt)
  then have "distinct (map tk_id ?xs)"
    by (simp add: strict_sorted_iff)
  with sorted ids n show ?thesis by simp
qed

text \<open>In the example the two successful claims receive the ids 1 and 2 and the counter
  stands at 3, although six transactions were made.\<close>

theorem ticket_ids_increasing_witness:
  "map tk_id (issued_tickets (trace ERC721_mint (deployed ERC721_deployed) example_calls)) = [1, 2] \<and>
   sorted_wrt (<) [1, 2 :: uint256] \<and> distinct [1, 2 :: uint256] \<and>
   unat (nextTicketId (example_state 6)) = 3"
proof -
  have i: "map tk_id (issued_tickets (trace ERC721_mint (deployed ERC721_deployed) example_calls))
             = [1, 2]"
    by (simp add: example_issued)
  have l: "length (issued_tickets (trace ERC721_mint (deployed ERC721_deployed) example_calls)) = 2"
    by (simp add: example_issued)
  note t = ticket_ids_increasing [of ERC721_mint ERC721_deployed example_calls,
      unfolded example_run i l]
  from t have "sorted_wrt (<) [1, 2 :: uint256]" "distinct [1, 2 :: uint256]"
    "unat (nextTicketId (example_state 6)) = Suc 2"
    by blast+
  with i show ?thesis by simp
qed

subsection \<open>C8: a claim that does not succeed only grows the attempt log\<close>

text \<open>
  Claim C8. Whenever \<^verbatim>\<open>grabTicket\<close> returns an outcome other than \<open>Success\<close>
  (\<open>NotStarted\<close>, \<open>AlreadyOwnsTicket\<close> or \<open>SoldOut\<close>), the storage afterwards is the
  storage before with one entry appended to the caller's attempt log: the events (and so
  every \<open>remainingTickets\<close>), the ticket store, both ownership mappings, the per-event
  and per-user ticket lists and the two counters are unchanged, and so is the attempt log
  of every other account.
\<close>

theorem grabTicket_failure_frame:
  assumes "grabTicket mint s sender now eventId = Inr ((ok, res, ticketId), s')"
    and "res \<noteq> Success"
  shows "s' = s\<lparr>userAttempts := (userAttempts s)(sender := userAttempts s sender @
                 [\<lparr>at_eventId = eventId, at_participant = sender, at_timestamp = now,
                   at_result = res\<rparr>])\<rparr> \<and>
         events s' = events s \<and> tickets s' = tickets s \<and>
         hasTicketForEvent s' = hasTicketForEvent s \<and>
         userTicketForEvent s' = userTicketForEvent s \<and>
         eventTickets s' = eventTickets s \<and> userEvents s' = userEvents s \<and>
         nextTicketId s' = nextTicketId s \<and> nextEventId s' = nextEventId s \<and>
         allEventIds s' = allEventIds s \<and> erc721 s' = erc721 s \<and>
         (\<forall>a. a \<noteq> sender \<longrightarrow> userAttempts s' a = userAttempts s a)"
proof -
  from assms have "\<not> ok" by (cases ok) (auto dest: grabTicket_success)
  with assms(1) have "s' = recordAttempt s sender now eventId res"
    by (simp add: grabTicket_failure)
  then show ?thesis by (simp add: recordAttempt_def)
qed

text \<open>Scenario 1 of the spec: the claim at time 1050 reports \<open>NotStarted\<close> and the
  remaining capacity stays 2.\<close>

theorem grabTicket_failure_frame_witness:
  "grabTicket ERC721_mint (example_state 1) 10 1050 1 =
     Inr ((False, NotStarted, 0), recordAttempt (example_state 1) 10 1050 1 NotStarted) \<and>
   NotStarted \<noteq> Success \<and>
   ev_remainingTickets (events (recordAttempt (example_state 1) 10 1050 1 NotStarted) 1) = 2 \<and>
   nextTicketId (recordAttempt (example_state 1) 10 1050 1 NotStarted) = 1 \<and>
   events (recordAttempt (example_state 1) 10 1050 1 NotStarted) = events (example_state 1) \<and>
   tickets (recordAttempt (example_state 1) 10 1050 1 NotStarted) = tickets (example_state 1)"
proof -
  have g: "grabTicket ERC721_mint (example_state 1) 10 1050 1 =
     Inr ((False, NotStarted, 0), recordAttempt (example_state 1) 10 1050 1 NotStarted)"
    by (simp add: engine_defs)
  have r: "ev_remainingTickets (events (example_state 1) 1) = 2" "nextTicketId (example_state 1) = 1"
    by (simp_all add: engine_defs)
  show ?thesis
    using grabTicket_failure_frame [OF g] g r by simp
qed

subsection \<open>C9: the most recent tickets of an event\<close>

text \<open>
  Claim C9. After any sequence of transactions on the deployed contract, and for every
  event id and every limit, \<^verbatim>\<open>getRecentTickets\<close> returns without failing. Its three
  arrays hold the ids, the owners and the acquisition times of the tickets handed out
  for the event, the most recently issued first, cut off after \<open>limit\<close> entries: their
  length is the smaller of \<open>limit\<close> and the number of tickets issued for the event, so a
  limit beyond that number returns all of them.
\<close>

theorem getRecentTickets_recent_first:
  "getRecentTickets (run mint (deployed n0) cs) e limit =
     Inr (map tk_id (take (unat limit) (rev (issued_for e (trace mint (deployed n0) cs)))),
          map tk_owner (take (unat limit) (rev (issued_for e (trace mint (deployed n0) cs)))),
          map tk_acquiredAt (take (unat limit) (rev (issued_for e (trace mint (deployed n0) cs))))) \<and>
   length (take (unat limit) (rev (issued_for e (trace mint (deployed n0) cs))))
     = min (unat limit) (length (issued_for e (trace mint (deployed n0) cs)))"
proof -
  let ?s = "run mint (deployed n0) cs"
  let ?xs = "issued_for e (trace mint (deployed n0) cs)"
  let ?ys = "take (unat limit) (rev ?xs)"
  have "eventTickets (deployed n0) e = []" by (simp add: deployed_def)
  with run_eventTickets [of mint "deployed n0" cs e]
  have ev: "eventTickets ?s e = map tk_id ?xs" by simp
  then have ids: "take (unat limit) (rev (eventTickets ?s e)) = map tk_id ?ys"
    by (simp add: rev_map take_map)
  have "set ?ys \<subseteq> set (rev ?xs)" by (rule set_take_subset)
  then have "set ?ys \<subseteq> set (issued_tickets (trace mint (deployed n0) cs))"
    by (auto simp: issued_for_def)
  have sub: "set ?ys \<subseteq> set (issued_tickets (trace mint (deployed n0) cs))"
    by fact
  have stored: "tickets ?s (tk_id tk) = tk" if "tk \<in> set ?ys" for tk
  proof -
    from sub that have "tk \<in> set (issued_tickets (trace mint (deployed n0) cs))" by (rule subsetD)
    from run_issued_stored [OF engine_inv_deployed this] show ?thesis by simp
  qed
  have ows: "map (\<lambda>t. tk_owner (tickets ?s t)) (map tk_id ?ys) = map tk_owner ?ys"
    using stored by (simp add: comp_def)
  have acq: "map (\<lambda>t. tk_acquiredAt (tickets ?s t)) (map tk_id ?ys) = map tk_acquiredAt ?ys"
    using stored by (simp add: comp_def)
  show ?thesis
    unfolding getRecentTickets_eventTickets ids ows acq
    by (simp add: min.commute)
qed

text \<open>Scenario 4 of the spec: with limit 5 the two tickets of event 1 come back, that of
  account 11 first; with limit 1 only the latest; an event without tickets gives empty
  arrays.\<close>

theorem getRecentTickets_recent_first_witness:
  "getRecentTickets (example_state 6) 1 5 = Inr ([2, 1], [11, 10], [1152, 1150]) \<and>
   getRecentTickets (example_state 6) 1 1 = Inr ([2], [11], [1152]) \<and>
   getRecentTickets (example_state 6) 7 5 = Inr ([], [], [])"
proof -
  have n: "issued_for 7 (trace ERC721_mint (deployed ERC721_deployed) example_calls) = []"
    by (simp add: example_trace issued_for_def issued_tickets_def)
  have u: "unat (5 :: uint256) = 5" "unat (1 :: uint256) = 1" by simp_all
  from getRecentTickets_recent_first [of ERC721_mint ERC721_deployed example_calls 1 5]
    getRecentTickets_recent_first [of ERC721_mint ERC721_deployed example_calls 1 1]
    getRecentTickets_recent_first [of ERC721_mint ERC721_deployed example_calls 7 5]
  show ?thesis
    by (simp add: example_run example_issued n u)
qed

subsection \<open>C10: ticket id 0 means no ticket\<close>

text \<open>
  Claim C10. Along any sequence of transactions on the deployed contract, a call of
  \<^verbatim>\<open>grabTicket\<close> returns \<open>success = true\<close> exactly when its outcome is \<open>Success\<close> and
  exactly when the ticket id it returns is not 0: every unsuccessful call returns id 0,
  and no successful call does. The counter \<open>nextTicketId\<close> is never 0, and no ticket is
  stored under id 0.
\<close>

theorem ticket_id_zero:
  "(\<forall>c ok res t. (c, Grabbed ok res t) \<in> set (trace mint (deployed n0) cs) \<longrightarrow>
      (ok \<longleftrightarrow> res = Success) \<and> (ok \<longleftrightarrow> t \<noteq> 0)) \<and>
   0 \<notin> tk_id ` set (issued_tickets (trace mint (deployed n0) cs)) \<and>
   nextTicketId (run mint (deployed n0) cs) \<noteq> 0 \<and>
   tk_id (tickets (run mint (deployed n0) cs) 0) = 0"
proof -
  let ?s = "run mint (deployed n0) cs"
  have inv: "engine_inv ?s" by (simp add: engine_inv_run engine_inv_deployed)
  have 1: "(ok \<longleftrightarrow> res = Success) \<and> (ok \<longleftrightarrow> t \<noteq> 0)"
    if "(c, Grabbed ok res t) \<in> set (trace mint (deployed n0) cs)" for c ok res t
    using engine_inv_deployed that by (rule trace_outcome)
  have "tk_id tk \<noteq> 0" if "tk \<in> set (issued_tickets (trace mint (deployed n0) cs))" for tk
    using run_issued_stored [OF engine_inv_deployed that] by simp
  then have 2: "0 \<notin> tk_id ` set (issued_tickets (trace mint (deployed n0) cs))"
    by force
  from inv have 3: "nextTicketId ?s \<noteq> 0" by (simp add: engine_inv_def inv_counters_def)
  from inv have 4: "tk_id (tickets ?s 0) = 0"
    unfolding engine_inv_def inv_tickets_def by metis
  from 1 2 3 4 show ?thesis by blast
qed

text \<open>In the example the early claim returns id 0 and the first successful claim returns
  id 1.\<close>

theorem ticket_id_zero_witness:
  "(GrabTicket 10 1050 1, Grabbed False NotStarted 0)
     \<in> set (trace ERC721_mint (deployed ERC721_deployed) example_calls) \<and>
   (GrabTicket 10 1150 1, Grabbed True Success 1)
     \<in> set (trace ERC721_mint (deployed ERC721_deployed) example_calls) \<and>
   (1 :: uint256) \<noteq> 0 \<and>
   nextTicketId (example_state 6) \<noteq> 0 \<and>
   tk_id (tickets (example_state 6) 0) = 0"
proof -
  have m: "(GrabTicket 10 1050 1, Grabbed False NotStarted 0)
     \<in> set (trace ERC721_mint (deployed ERC721_deployed) example_calls)"
   "(GrabTicket 10 1150 1, Grabbed True Success 1)
     \<in> set (trace ERC721_mint (deployed ERC721_deployed) example_calls)"
    by (simp_all add: example_trace)
  note t = ticket_id_zero [of ERC721_mint ERC721_deployed example_calls, unfolded example_run]
  from t m(2) have "(1 :: uint256) \<noteq> 0" by blast
  with t m show ?thesis by blast
qed

end
